theory Spec2Isabelle
  imports Main "HOL-Library.Sublist" "HOL-Library.AList"
begin

section \<open>JavaScript strings\<close>

text \<open>
  A text is a \<open>string\<close>: one \<open>char\<close> per code unit, for texts whose code units
  are below 256. On these, the white space of \<open>String.prototype.trim\<close> and of the
  regular expression class \<open>\s\<close> is tab, line feed, vertical tab, form feed, carriage
  return, space and no-break space.
\<close>

definition is_space :: "char \<Rightarrow> bool" where
  "is_space c = (c \<in> {CHR 0x09, CHR 0x0A, CHR 0x0B, CHR 0x0C, CHR 0x0D, CHR '' '', CHR 0xA0})"

definition trim :: "string \<Rightarrow> string" where
  "trim s = rev (dropWhile is_space (rev (dropWhile is_space s)))"

text \<open>\<open>s.indexOf(pat)\<close>: the position of the first occurrence, \<open>-1\<close> when there is none.\<close>

fun indexOf :: "string \<Rightarrow> string \<Rightarrow> int" where
  "indexOf [] pat = (if pat = [] then 0 else - 1)"
| "indexOf (c # cs) pat =
     (if prefix pat (c # cs) then 0
      else (let i = indexOf cs pat in if i < 0 then - 1 else i + 1))"

text \<open>\<open>s.startsWith(p)\<close>.\<close>

definition startsWith :: "string \<Rightarrow> string \<Rightarrow> bool" where
  "startsWith s p = prefix p s"

definition cons_first :: "char \<Rightarrow> string list \<Rightarrow> string list" where
  "cons_first c ps = (case ps of [] \<Rightarrow> [[c]] | q # qs \<Rightarrow> (c # q) # qs)"

text \<open>
  \<open>s.split(sep)\<close> for a non-empty string separator: the pieces between the
  occurrences of \<open>sep\<close>, found from the left without overlap.
\<close>

function split_str :: "string \<Rightarrow> string \<Rightarrow> string list" where
  "split_str sep [] = [[]]"
| "split_str sep (c # cs) =
     (if sep \<noteq> [] \<and> prefix sep (c # cs)
      then [] # split_str sep (drop (length sep) (c # cs))
      else cons_first c (split_str sep cs))"
  by pat_completeness auto
termination
  by (relation "measure (\<lambda>(sep, s). length s)") (auto simp: Suc_le_eq)

text \<open>
  The regular expressions of \<open>processClip\<close> all have the form
  \<open>/<!--#KEYWORD\s*-->/\<close>. \<open>marker_match kw s\<close> matches that expression at the start
  of \<open>s\<close> and returns the text after the match. \<open>\s*\<close> is greedy, and since \<open>-\<close> is no
  white space there is nothing to backtrack to.
\<close>

definition marker_match :: "string \<Rightarrow> string \<Rightarrow> string option" where
  "marker_match kw s =
     (if prefix (''<!--#'' @ kw) s
      then (let r = dropWhile is_space (drop (length (''<!--#'' @ kw)) s)
            in if prefix ''-->'' r then Some (drop 3 r) else None)
      else None)"

text \<open>\<open>s.split(/<!--#KEYWORD\s*-->/)\<close>: the pieces between the matches.\<close>

function split_marker :: "string \<Rightarrow> string \<Rightarrow> string list" where
  "split_marker kw [] = [[]]"
| "split_marker kw (c # cs) =
     (case marker_match kw (c # cs) of
        Some r \<Rightarrow> [] # split_marker kw r
      | None \<Rightarrow> cons_first c (split_marker kw cs))"
  by pat_completeness auto
termination
proof (relation "measure (\<lambda>(kw, s). length s)")
  show "wf (measure (\<lambda>(kw, s). length s))" by simp
next
  fix kw :: string and c cs r
  assume h: "marker_match kw (c # cs) = Some r"
  define t where "t = dropWhile is_space (drop (length (''<!--#'' @ kw)) (c # cs))"
  from h have p: "prefix ''-->'' t" and r: "r = drop 3 t"
    by (auto simp: marker_match_def t_def Let_def split: if_splits)
  from p have "3 \<le> length t" by (auto simp: prefix_def)
  moreover have "length t \<le> length (c # cs)"
    unfolding t_def by (rule order_trans [OF length_dropWhile_le]) simp
  ultimately have "length r < length (c # cs)" using r by simp
  then show "((kw, r), (kw, c # cs)) \<in> measure (\<lambda>(kw, s). length s)" by simp
next
  fix kw :: string and c cs
  show "((kw, cs), (kw, c # cs)) \<in> measure (\<lambda>(kw, s). length s)" by simp
qed

section \<open>File objects and clip processing (core.mjs)\<close>

datatype js_error = TypeError | IOError

record file_obj =
  path :: string
  name :: string
  content :: string
  processed :: bool
  file_path :: string
  file_contents :: string

text \<open>
  \<open>path.basename\<close> of Node, for POSIX paths: trailing slashes are dropped, then the
  text after the last slash is the name.
\<close>

definition basename :: "string \<Rightarrow> string" where
  "basename p =
     rev (takeWhile (\<lambda>c. c \<noteq> CHR ''/'') (dropWhile (\<lambda>c. c = CHR ''/'') (rev p)))"

definition createFileObject :: "string \<Rightarrow> string \<Rightarrow> file_obj" where
  "createFileObject filePath text =
     \<lparr> path = filePath, name = basename filePath, content = trim text,
       processed = False, file_path = filePath, file_contents = text \<rparr>"

text \<open>
  The first statement of \<open>processClip\<close>. \<open>.splice(1)[0]\<close> is the second piece of the
  split, \<open>undefined\<close> when the expression matched nowhere, and \<open>.split\<close> on
  \<open>undefined\<close> raises a TypeError. \<open>.splice(0, 1)[0]\<close> is the first piece.
\<close>

definition clipBeforeAfter :: "string \<Rightarrow> js_error + string" where
  "clipBeforeAfter s =
     (if indexOf s ''<!--#clipbefore'' > - 1
      then (case drop 1 (split_marker ''clipbefore'' s) of
              [] \<Rightarrow> Inl TypeError
            | p # _ \<Rightarrow>
                (case take 1 (split_str ''<!--#clipafter'' p) of
                   [] \<Rightarrow> Inl TypeError
                 | q # _ \<Rightarrow> Inr q))
      else Inr s)"

text \<open>
  The second statement. \<open>tmp[1]\<close> is \<open>undefined\<close> when the expression matched
  nowhere, and \<open>.split\<close> on it raises; \<open>[1]\<close> of the inner split is \<open>undefined\<close> when
  there is no end marker, and \<open>+\<close> turns it into the text \<open>undefined\<close>.
\<close>

definition clipBetween :: "string \<Rightarrow> js_error + string" where
  "clipBetween s =
     (if indexOf s ''<!--#clipbetween'' > - 1
      then (case split_marker ''clipbetween'' s of
              t0 # t1 # _ \<Rightarrow>
                (case split_marker ''endclipbetween'' t1 of
                   _ # u1 # _ \<Rightarrow> Inr (t0 @ u1)
                 | _ \<Rightarrow> Inr (t0 @ ''undefined''))
            | _ \<Rightarrow> Inl TypeError)
      else Inr s)"

definition clip_content :: "string \<Rightarrow> js_error + string" where
  "clip_content s =
     (case clipBeforeAfter s of Inl e \<Rightarrow> Inl e | Inr s1 \<Rightarrow> clipBetween s1)"

definition processClip :: "file_obj \<Rightarrow> js_error + file_obj" where
  "processClip f =
     (case clip_content (content f) of
        Inl e \<Rightarrow> Inl e
      | Inr s \<Rightarrow> Inr (f\<lparr>content := s\<rparr>))"

text \<open>
  What the clip theorems say about a text: \<open>has_marker kw s\<close> holds when the expression
  \<open>/<!--#kw\s*-->/\<close> matches somewhere in \<open>s\<close>; \<open>starts_inside kw u v\<close> when a
  match begins inside \<open>u\<close> in the text \<open>u @ v\<close>.
\<close>

fun has_marker :: "string \<Rightarrow> string \<Rightarrow> bool" where
  "has_marker kw [] = False"
| "has_marker kw (c # cs) = (marker_match kw (c # cs) \<noteq> None \<or> has_marker kw cs)"

definition starts_inside :: "string \<Rightarrow> string \<Rightarrow> string \<Rightarrow> bool" where
  "starts_inside kw u v = (\<exists>a b. u = a @ b \<and> b \<noteq> [] \<and> marker_match kw (b @ v) \<noteq> None)"

section \<open>The fragment registry (config.mjs)\<close>

text \<open>
  Modelled from the spec: \<open>pageFiles\<close>, \<open>insertFiles\<close>, \<open>wrapFiles\<close> and
  \<open>configureFiles\<close> of config.mjs, which is not among the sources. core.mjs shows their
  shape: \<open>pageFiles\<close> is an array (\<open>pageFiles.length = 0\<close>, \<open>for (const file of pageFiles)\<close>),
  \<open>insertFiles\<close> and \<open>wrapFiles\<close> are objects whose keys \<open>reset\<close> deletes. The spec
  (sections 3 and 4.2) keys the registry by path and derives the category from the first
  character of the file name; the comments of core.mjs and of the example configuration give
  the marker characters, \<open>-\<close> for inserts and \<open>_\<close> for wraps. An object is an association
  list in insertion order; the path of a file object serves as its normalised path.
\<close>

datatype category = Page | InsertFragment | WrapFragment

definition categorize :: "string \<Rightarrow> category" where
  "categorize nm =
     (if startsWith nm ''-'' then InsertFragment
      else if startsWith nm ''_'' then WrapFragment
      else Page)"

record registry =
  pageFiles :: "file_obj list"
  insertFiles :: "(string \<times> file_obj) list"
  wrapFiles :: "(string \<times> file_obj) list"

definition empty_registry :: registry where
  "empty_registry = \<lparr> pageFiles = [], insertFiles = [], wrapFiles = [] \<rparr>"

text \<open>
  Modelled from the spec: \<open>register\<close> (\<open>configureFiles\<close> of config.mjs, not among the
  sources) inserts or overwrites the record of a path. In the page array a record of the same
  path is replaced where it stands, and a new one is appended.
\<close>

definition put_page :: "file_obj \<Rightarrow> file_obj list \<Rightarrow> file_obj list" where
  "put_page f fs =
     (if list_ex (\<lambda>g. path g = path f) fs
      then map (\<lambda>g. if path g = path f then f else g) fs
      else fs @ [f])"

definition configureFiles :: "file_obj \<Rightarrow> registry \<Rightarrow> registry" where
  "configureFiles f reg =
     (case categorize (name f) of
        InsertFragment \<Rightarrow> reg\<lparr>insertFiles := AList.update (path f) f (insertFiles reg)\<rparr>
      | WrapFragment \<Rightarrow> reg\<lparr>wrapFiles := AList.update (path f) f (wrapFiles reg)\<rparr>
      | Page \<Rightarrow> reg\<lparr>pageFiles := put_page f (pageFiles reg)\<rparr>)"

text \<open>
  Modelled from the spec: \<open>lookup\<close> (config.mjs, not among the sources), the record
  registered under a path, in any partition.
\<close>

definition lookup :: "registry \<Rightarrow> string \<Rightarrow> file_obj option" where
  "lookup reg p =
     (case map_of (insertFiles reg) p of
        Some f \<Rightarrow> Some f
      | None \<Rightarrow>
          (case map_of (wrapFiles reg) p of
             Some f \<Rightarrow> Some f
           | None \<Rightarrow> find (\<lambda>f. path f = p) (rev (pageFiles reg))))"

text \<open>All records of a registry, whatever their partition.\<close>

definition records :: "registry \<Rightarrow> file_obj set" where
  "records reg = set (pageFiles reg) \<union> snd ` set (insertFiles reg) \<union> snd ` set (wrapFiles reg)"

text \<open>
  The registry as registration builds it: every record carries the base name of its path,
  and sits in the partition of that name's category.
\<close>

definition wf_registry :: "registry \<Rightarrow> bool" where
  "wf_registry reg =
     ((\<forall>f\<in>set (pageFiles reg). name f = basename (path f) \<and> categorize (name f) = Page)
      \<and> (\<forall>f\<in>snd ` set (insertFiles reg).
            name f = basename (path f) \<and> categorize (name f) = InsertFragment)
      \<and> (\<forall>f\<in>snd ` set (wrapFiles reg).
            name f = basename (path f) \<and> categorize (name f) = WrapFragment))"

section \<open>Registration, discovery and reset (core.mjs)\<close>

text \<open>\<open>hashFile\<close>: clip first, then categorise. An error of \<open>processClip\<close> leaves the registry as it was.\<close>

definition hashFile :: "file_obj \<Rightarrow> registry \<Rightarrow> js_error + registry" where
  "hashFile f reg =
     (case processClip f of
        Inl e \<Rightarrow> Inl e
      | Inr f' \<Rightarrow> Inr (configureFiles f' reg))"

text \<open>
  The file system, as the code reads it: the entries of a directory (\<open>fs.readdir\<close> with
  \<open>withFileTypes\<close>) and \<open>fs.readFile\<close>, which fails on a path that cannot be read.
  \<open>path.join\<close> is modelled for a directory path already in normal form.
\<close>

datatype entry = File string | Dir string "entry list" | Other string

definition path_join :: "string \<Rightarrow> string \<Rightarrow> string" where
  "path_join dir nm = dir @ ''/'' @ nm"

definition endsWith :: "string \<Rightarrow> string \<Rightarrow> bool" where
  "endsWith s p = suffix p s"

fun discoverFiles :: "string \<Rightarrow> entry list \<Rightarrow> string list" where
  "discoverFiles dir [] = []"
| "discoverFiles dir (Dir nm sub # es) = discoverFiles (path_join dir nm) sub @ discoverFiles dir es"
| "discoverFiles dir (File nm # es) =
     (if endsWith (path_join dir nm) ''.html'' then [path_join dir nm] else []) @ discoverFiles dir es"
| "discoverFiles dir (Other nm # es) = discoverFiles dir es"

text \<open>
  The loop of \<open>loadDependencies\<close> over the discovered paths. It stops at the first error
  (a file that cannot be read, or a TypeError of \<open>processClip\<close>); what was registered
  before stays registered.
\<close>

fun loadFiles :: "(string \<Rightarrow> string option) \<Rightarrow> string list \<Rightarrow> registry \<Rightarrow> js_error option \<times> registry" where
  "loadFiles rd [] reg = (None, reg)"
| "loadFiles rd (filePath # rest) reg =
     (let fileName = basename filePath in
      if startsWith fileName ''-'' \<or> startsWith fileName ''_''
      then (case rd filePath of
              None \<Rightarrow> (Some IOError, reg)
            | Some text \<Rightarrow>
                (case hashFile (createFileObject filePath text) reg of
                   Inl e \<Rightarrow> (Some e, reg)
                 | Inr reg' \<Rightarrow> loadFiles rd rest reg'))
      else loadFiles rd rest reg)"

definition loadDependencies ::
    "(string \<Rightarrow> string option) \<Rightarrow> string \<Rightarrow> entry list \<Rightarrow> registry \<Rightarrow> js_error option \<times> registry" where
  "loadDependencies rd baseDir es reg = loadFiles rd (discoverFiles baseDir es) reg"

text \<open>
  \<open>reset\<close>: \<open>pageFiles.length = 0\<close> empties the array; each own key of the two objects is
  deleted in turn.
\<close>

definition reset :: "registry \<Rightarrow> registry" where
  "reset reg =
     \<lparr> pageFiles = [],
       insertFiles = fold AList.delete (map fst (insertFiles reg)) (insertFiles reg),
       wrapFiles = fold AList.delete (map fst (wrapFiles reg)) (wrapFiles reg) \<rparr>"

section \<open>The data resolver\<close>

text \<open>
  Modelled from the spec: the Data Resolver (section 4.3), whose code (parse.mjs) is not
  among the sources. The path is split on \<open>.\<close>; a segment selects a key of an object, or,
  when it is a decimal number, an index of an array; a missing segment gives the default, or
  the empty text when there is none. Numbers of the data tree are integers here.
\<close>

datatype json = JNull | JBool bool | JNum int | JStr string | JArr "json list" | JObj "(string \<times> json) list"

definition is_digit :: "char \<Rightarrow> bool" where
  "is_digit c = (48 \<le> (of_char c :: nat) \<and> (of_char c :: nat) \<le> 57)"

definition is_index :: "string \<Rightarrow> bool" where
  "is_index seg = (seg \<noteq> [] \<and> list_all is_digit seg)"

definition seg_index :: "string \<Rightarrow> nat" where
  "seg_index seg = fold (\<lambda>c n. 10 * n + (of_char c - 48)) seg 0"

fun child :: "json \<Rightarrow> string \<Rightarrow> json option" where
  "child (JObj kvs) seg = map_of kvs seg"
| "child (JArr xs) seg =
     (if is_index seg \<and> seg_index seg < length xs then Some (xs ! seg_index seg) else None)"
| "child v seg = None"

fun descend :: "json \<Rightarrow> string list \<Rightarrow> json option" where
  "descend v [] = Some v"
| "descend v (seg # segs) = (case child v seg of None \<Rightarrow> None | Some w \<Rightarrow> descend w segs)"

text \<open>
  Modelled from the spec: \<open>resolve(T, P, D)\<close> of section 4.3 (parse.mjs is not among the
  sources), with \<open>None\<close> for an undefined default.
\<close>

definition resolve :: "json \<Rightarrow> string \<Rightarrow> json option \<Rightarrow> json" where
  "resolve T P D =
     (case descend T (split_str ''.'' P) of
        Some v \<Rightarrow> v
      | None \<Rightarrow> (case D of Some d \<Rightarrow> d | None \<Rightarrow> JStr []))"

text \<open>
  The claim's own notion of a path that is present in a tree, written from its words: no
  segment is missing and no index is out of range.
\<close>

fun present :: "json \<Rightarrow> string list \<Rightarrow> bool" where
  "present v [] = True"
| "present (JObj kvs) (seg # segs) =
     (case map_of kvs seg of None \<Rightarrow> False | Some w \<Rightarrow> present w segs)"
| "present (JArr xs) (seg # segs) =
     (is_index seg \<and> seg_index seg < length xs \<and> present (xs ! seg_index seg) segs)"
| "present v (seg # segs) = False"

section \<open>The directive scanner\<close>

text \<open>
  Modelled from the spec: the Directive Scanner (sections 3, 4.1 and 6) of parse.mjs, which
  is not among the sources. A tag is \<open><!--#\<close>, a keyword, attribute pairs \<open>name="value"\<close>
  and \<open>-->\<close>. The keywords are those the sources show (\<open>insert\<close>, \<open>data\<close>, \<open>jsonInsert\<close>,
  the four clip keywords) and \<open>wrap\<close>, \<open>endwrap\<close>, \<open>middle\<close> for the remaining kinds of the
  spec. The options are those of the sources' configuration.
\<close>

record options =
  jsonInput :: "json option"
  insertPattern :: "string option"
  filePathAttribute :: string
  jsonPathAttribute :: string
  limitIterations :: "nat option"

definition tagKeyword :: "options \<Rightarrow> string" where
  "tagKeyword os = (case insertPattern os of None \<Rightarrow> ''insert'' | Some k \<Rightarrow> k)"

datatype kind = KInsert | KWrap | KEndWrap | KData | KJsonInsert
  | KClipBefore | KClipAfter | KClipBetween | KEndClipBetween | KMiddle

record directive =
  kind :: kind
  attributes :: "(string \<times> string) list"
  source :: string

datatype piece = Lit string | Tag directive | Malformed string

fun find_sub :: "string \<Rightarrow> string \<Rightarrow> (string \<times> string) option" where
  "find_sub pat [] = (if pat = [] then Some ([], []) else None)"
| "find_sub pat (c # cs) =
     (if prefix pat (c # cs) then Some ([], drop (length pat) (c # cs))
      else (case find_sub pat cs of None \<Rightarrow> None | Some (a, b) \<Rightarrow> Some (c # a, b)))"

datatype pstate = Between | Name string | Eq string | Val string string

fun parse_attrs :: "pstate \<Rightarrow> string \<Rightarrow> (string \<times> string) list option" where
  "parse_attrs Between [] = Some []"
| "parse_attrs Between (c # cs) =
     (if is_space c then parse_attrs Between cs
      else if c = CHR ''='' \<or> c = CHR 0x22 then None
      else parse_attrs (Name [c]) cs)"
| "parse_attrs (Name n) [] = None"
| "parse_attrs (Name n) (c # cs) =
     (if c = CHR ''='' then parse_attrs (Eq n) cs
      else if is_space c \<or> c = CHR 0x22 then None
      else parse_attrs (Name (n @ [c])) cs)"
| "parse_attrs (Eq n) [] = None"
| "parse_attrs (Eq n) (c # cs) = (if c = CHR 0x22 then parse_attrs (Val n []) cs else None)"
| "parse_attrs (Val n v) [] = None"
| "parse_attrs (Val n v) (c # cs) =
     (if c = CHR 0x22 then map_option ((#) (n, v)) (parse_attrs Between cs)
      else parse_attrs (Val n (v @ [c])) cs)"

definition kind_of :: "options \<Rightarrow> string \<Rightarrow> kind option" where
  "kind_of os kw =
     (if kw = tagKeyword os then Some KInsert
      else if kw = ''wrap'' then Some KWrap
      else if kw = ''endwrap'' then Some KEndWrap
      else if kw = ''middle'' then Some KMiddle
      else if kw = ''data'' then Some KData
      else if kw = ''jsonInsert'' then Some KJsonInsert
      else if kw = ''clipbefore'' then Some KClipBefore
      else if kw = ''clipafter'' then Some KClipAfter
      else if kw = ''clipbetween'' then Some KClipBetween
      else if kw = ''endclipbetween'' then Some KEndClipBetween
      else None)"

text \<open>
  The required attributes: a path for \<open>Insert\<close> and \<open>Wrap\<close>, a data path for \<open>Data\<close> and
  \<open>JsonInsert\<close>; an inline expression (attribute \<open>rawJson\<close>) may stand in for them except
  on \<open>Wrap\<close>.
\<close>

definition well_formed :: "options \<Rightarrow> kind \<Rightarrow> (string \<times> string) list \<Rightarrow> bool" where
  "well_formed os k as =
     (case k of
        KInsert \<Rightarrow> map_of as (filePathAttribute os) \<noteq> None \<or> map_of as ''rawJson'' \<noteq> None
      | KWrap \<Rightarrow> map_of as (filePathAttribute os) \<noteq> None
      | KData \<Rightarrow> map_of as (jsonPathAttribute os) \<noteq> None \<or> map_of as ''rawJson'' \<noteq> None
      | KJsonInsert \<Rightarrow> map_of as (jsonPathAttribute os) \<noteq> None \<or> map_of as ''rawJson'' \<noteq> None
      | _ \<Rightarrow> True)"

text \<open>
  A comment with another keyword is ordinary text. A tag with a directive keyword whose
  attributes do not parse, or lack the required one, is malformed: it stays in the text and
  is reported.
\<close>

definition classify :: "options \<Rightarrow> string \<Rightarrow> piece" where
  "classify os inner =
     (let src = ''<!--#'' @ inner @ ''-->'';
          kw = takeWhile (\<lambda>c. \<not> is_space c) inner;
          rest = dropWhile (\<lambda>c. \<not> is_space c) inner
      in case kind_of os kw of
           None \<Rightarrow> Lit src
         | Some k \<Rightarrow>
             (case parse_attrs Between rest of
                None \<Rightarrow> Malformed src
              | Some as \<Rightarrow>
                  if well_formed os k as
                  then Tag \<lparr> kind = k, attributes = as, source = src \<rparr>
                  else Malformed src))"

definition lit :: "string \<Rightarrow> piece list" where
  "lit s = (if s = [] then [] else [Lit s])"

function scan :: "options \<Rightarrow> string \<Rightarrow> piece list" where
  "scan os s =
     (case find_sub ''<!--#'' s of
        None \<Rightarrow> lit s
      | Some (pre, r) \<Rightarrow>
          (case find_sub ''-->'' r of
             None \<Rightarrow> lit s
           | Some (inner, post) \<Rightarrow> lit pre @ classify os inner # scan os post))"
  by pat_completeness auto
termination
proof (relation "measure (\<lambda>(os, s). length s)")
  show "wf (measure (\<lambda>(os, s). length s))" by simp
next
  fix os :: options and s :: string and x pre r y inner post
  assume a: "find_sub ''<!--#'' s = Some x" "(pre, r) = x"
    and b: "find_sub ''-->'' r = Some y" "(inner, post) = y"
  have len: "find_sub pat t = Some (u, v) \<Longrightarrow> length v \<le> length t" for pat t u v
  proof (induction t arbitrary: u)
    case Nil
    then show ?case by (simp split: if_splits)
  next
    case (Cons c cs)
    then show ?case by (fastforce split: if_splits option.splits)
  qed
  have "s \<noteq> []" using a by (cases s) auto
  moreover have "length r < length s \<or> s = []"
    using a by (cases s) (auto split: if_splits option.splits dest: len)
  moreover have "length post \<le> length r" using b len by auto
  ultimately have "length post < length s" by auto
  then show "((os, post), (os, s)) \<in> measure (\<lambda>(os, s). length s)" by simp
qed

declare scan.simps [simp del]

fun render_piece :: "piece \<Rightarrow> string" where
  "render_piece (Lit s) = s"
| "render_piece (Tag d) = source d"
| "render_piece (Malformed s) = s"

definition render :: "piece list \<Rightarrow> string" where
  "render ps = concat (map render_piece ps)"

fun directives :: "piece list \<Rightarrow> directive list" where
  "directives [] = []"
| "directives (Tag d # ps) = d # directives ps"
| "directives (p # ps) = directives ps"

section \<open>The resolution engine\<close>

text \<open>
  Modelled from the spec: the Resolution Engine (\<open>processFile\<close> of parse.mjs, sections 4.6
  and 7), which is not among the sources. The engine holds the document as the scanner's
  output, a sequence of text runs and directives. One pass replaces the directives from left
  to right; passes repeat until no directive is left or the iteration cap is reached. An
  \<open>Insert\<close> first resolves the referenced fragment's own directives, depth-first, and then
  splices the resolved text. Every pass counts, over the document as over a fragment it
  inserts, and the cap bounds that count: a two-level insert takes two passes, and the cap
  is what stops a cycle. The collaborators of the engine are its parameters: the fragments
  and layouts it can look up or load, the expression evaluator with its capability table,
  and the conversion of a data value to text.
\<close>

datatype condition =
  InvalidDirective string | MissingFragment string | EvaluationError string | UnresolvedDirective

record env =
  opts :: options
  fragment :: "string \<Rightarrow> string option"
  layout :: "string \<Rightarrow> string option"
  evaluate :: "string \<Rightarrow> string option"
  stringify :: "json \<Rightarrow> string"

definition data_default :: "directive \<Rightarrow> json option" where
  "data_default d = map_option JStr (map_of (attributes d) ''default'')"

definition substitute_data :: "env \<Rightarrow> json \<Rightarrow> directive \<Rightarrow> piece list \<times> condition list" where
  "substitute_data E T d =
     (case map_of (attributes d) (jsonPathAttribute (opts E)) of
        None \<Rightarrow> ([Malformed (source d)], [])
      | Some jp \<Rightarrow> (lit (stringify E (resolve T jp (data_default d))), []))"

text \<open>
  Modelled from the spec: the path of an \<open>Insert\<close> is resolved relative to the directory
  of the host document (step 3 of section 4.6; parse.mjs is not among the sources). A path
  that starts with a slash stands for itself; \<open>.\<close> and \<open>..\<close> segments are not normalised.
\<close>

definition dirname :: "string \<Rightarrow> string" where
  "dirname p = rev (drop 1 (dropWhile (\<lambda>c. c \<noteq> CHR ''/'') (rev p)))"

definition locate :: "string \<Rightarrow> string \<Rightarrow> string" where
  "locate host p =
     (if startsWith p ''/'' \<or> CHR ''/'' \<notin> set host then p else path_join (dirname host) p)"

text \<open>
  Modelled from the spec: the substitution of one self-closing directive (step 3 of section
  4.6; parse.mjs is not among the sources). It is either a text to splice, with the
  conditions met, or, for an \<open>Insert\<close> whose fragment is found, the fragment to include:
  its path and its stored text, which the engine resolves before it splices it. A clip
  marker or a \<open>Middle\<close> marker met here has no meaning for the engine: it is left as
  malformed text.
\<close>

datatype subst = Spliced "piece list" "condition list" | Include string string

definition substitute :: "env \<Rightarrow> json \<Rightarrow> string \<Rightarrow> directive \<Rightarrow> subst" where
  "substitute E T host d =
     (case map_of (attributes d) ''rawJson'' of
        Some e \<Rightarrow>
          (case evaluate E e of
             Some v \<Rightarrow> Spliced (lit v) []
           | None \<Rightarrow> Spliced [] [EvaluationError (source d)])
      | None \<Rightarrow>
          (case kind d of
             KInsert \<Rightarrow>
               (case map_of (attributes d) (filePathAttribute (opts E)) of
                  None \<Rightarrow> Spliced [Malformed (source d)] []
                | Some p \<Rightarrow>
                   (case fragment E (locate host p) of
                      Some text \<Rightarrow> Include (locate host p) text
                    | None \<Rightarrow> Spliced [] [MissingFragment (locate host p)]))
           | KData \<Rightarrow> (case substitute_data E T d of (sub, c) \<Rightarrow> Spliced sub c)
           | KJsonInsert \<Rightarrow> (case substitute_data E T d of (sub, c) \<Rightarrow> Spliced sub c)
           | _ \<Rightarrow> Spliced [Malformed (source d)] []))"

fun is_middle :: "piece \<Rightarrow> bool" where
  "is_middle (Tag d) = (kind d = KMiddle)"
| "is_middle p = False"

text \<open>
  Modelled from the spec: a resolved \<open>Wrap\<close> pair (step 3 of section 4.6; parse.mjs is
  not among the sources). The layout becomes the shell and the body goes wherever the shell
  has a \<open>Middle\<close> marker; without one the body is dropped and reported. The spec names no
  path resolution for a \<open>Wrap\<close>: the layout is looked up under the path as it is written.
\<close>

definition shell :: "env \<Rightarrow> directive \<Rightarrow> piece list \<Rightarrow> piece list \<times> condition list" where
  "shell E d body =
     (case map_of (attributes d) (filePathAttribute (opts E)) of
        None \<Rightarrow> ([Malformed (source d)], [])
      | Some p \<Rightarrow>
          (case layout E p of
             None \<Rightarrow> ([], [MissingFragment p])
           | Some text \<Rightarrow>
               (let sh = scan (opts E) text in
                if list_ex is_middle sh
                then (concat (map (\<lambda>x. if is_middle x then body else [x]) sh), [])
                else (sh, [InvalidDirective (source d)]))))"

text \<open>The kind of the first \<open>Wrap\<close> or \<open>EndWrap\<close> tag of a sequence.\<close>

fun next_wrap :: "piece list \<Rightarrow> kind option" where
  "next_wrap [] = None"
| "next_wrap (Tag d # ps) =
     (if kind d = KWrap \<or> kind d = KEndWrap then Some (kind d) else next_wrap ps)"
| "next_wrap (p # ps) = next_wrap ps"

text \<open>
  Modelled from the spec: what a pass does with the piece it stands on (steps 3 and 4 of
  section 4.6; parse.mjs is not among the sources). \<open>cur\<close> is the innermost \<open>Wrap\<close> whose
  body is being collected; \<open>depth\<close> counts the enclosing \<open>Wrap\<close> tags left for a later
  pass. The pass either emits a text in place of the piece and goes on in a new state, or
  has a fragment to fetch. A \<open>Wrap\<close> directly followed (among wrap tags) by its
  \<open>EndWrap\<close> is an innermost pair and is resolved now, its body being the text as it
  stood; one that encloses another pair waits; one with no \<open>EndWrap\<close> at all, and an
  \<open>EndWrap\<close> with no opener, are mismatched and become malformed text.
\<close>

datatype action =
  Emit "piece list" "condition list" nat "(directive \<times> piece list) option"
| Fetch string string

fun dispatch ::
    "env \<Rightarrow> json \<Rightarrow> string \<Rightarrow> nat \<Rightarrow> (directive \<times> piece list) option \<Rightarrow> piece \<Rightarrow> piece list
       \<Rightarrow> action" where
  "dispatch E T host depth (Some (w, acc)) (Tag d) ps =
     (if kind d = KEndWrap
      then (case shell E w (rev acc) of (sh, c) \<Rightarrow> Emit sh c depth None)
      else Emit [] [] depth (Some (w, Tag d # acc)))"
| "dispatch E T host depth (Some (w, acc)) p ps = Emit [] [] depth (Some (w, p # acc))"
| "dispatch E T host depth None (Tag d) ps =
     (if kind d = KWrap
      then (case next_wrap ps of
              Some KEndWrap \<Rightarrow> Emit [] [] depth (Some (d, []))
            | Some k \<Rightarrow> Emit [Tag d] [] (Suc depth) None
            | None \<Rightarrow> Emit [Malformed (source d)] [] depth None)
      else if kind d = KEndWrap
      then (case depth of
              0 \<Rightarrow> Emit [Malformed (source d)] [] 0 None
            | Suc k \<Rightarrow> Emit [Tag d] [] k None)
      else (case substitute E T host d of
              Spliced sub c \<Rightarrow> Emit sub c depth None
            | Include q text \<Rightarrow> Fetch q text))"
| "dispatch E T host depth None p ps = Emit [p] [] depth None"

text \<open>A \<open>Wrap\<close> still open when the pass ends stays in the text with what it collected.\<close>

fun leftover :: "(directive \<times> piece list) option \<Rightarrow> piece list" where
  "leftover None = []"
| "leftover (Some (w, acc)) = Tag w # rev acc"

text \<open>The iteration cap: \<open>k\<close> passes have been made; without a cap there is no bound.\<close>

definition capped :: "options \<Rightarrow> nat \<Rightarrow> bool" where
  "capped os k = (case limitIterations os of None \<Rightarrow> False | Some n \<Rightarrow> n \<le> k)"

text \<open>
  Modelled from the spec: the fixed-point algorithm (section 4.6; parse.mjs is not among
  the sources). \<open>Resolve host ps k\<close> resolves the text \<open>ps\<close> of the document \<open>host\<close>
  after \<open>k\<close> passes: it returns the text when no directive is left, or when the cap is
  reached, and otherwise makes a pass and starts again. \<open>Pass host depth cur ps k\<close> is
  the rest of a pass, from left to right; a fragment to fetch is resolved first, as a
  document of its own, and its resolved text is spliced. The result is the text, the
  conditions met and the number of passes made. Resolution may not return (without a cap, a
  cycle of inserts goes on for ever): \<open>None\<close> is the run that does not return.
\<close>

datatype task =
  Resolve string "piece list" nat
| Pass string nat "(directive \<times> piece list) option" "piece list" nat

partial_function (option) engine ::
    "env \<Rightarrow> json \<Rightarrow> task \<Rightarrow> (piece list \<times> condition list \<times> nat) option" where
  "engine E T t =
     (case t of
        Resolve host ps k \<Rightarrow>
          (if directives ps = [] \<or> capped (opts E) k then Some (ps, [], k)
           else Option.bind (engine E T (Pass host 0 None ps (Suc k)))
                  (\<lambda>(qs, c1, k1).
                     Option.bind (engine E T (Resolve host qs k1))
                       (\<lambda>(rs, c2, k2). Some (rs, c1 @ c2, k2))))
      | Pass host depth cur ps k \<Rightarrow>
          (case ps of
             [] \<Rightarrow> Some (leftover cur, [], k)
           | p # rest \<Rightarrow>
               (case dispatch E T host depth cur p rest of
                  Emit pre c1 depth' cur' \<Rightarrow>
                    Option.bind (engine E T (Pass host depth' cur' rest k))
                      (\<lambda>(qs, c2, k2). Some (pre @ qs, c1 @ c2, k2))
                | Fetch q text \<Rightarrow>
                    Option.bind (engine E T (Resolve q (scan (opts E) text) k))
                      (\<lambda>(fs, c1, k1).
                         Option.bind (engine E T (Pass host depth None rest k1))
                           (\<lambda>(qs, c2, k2). Some (fs @ qs, c1 @ c2, k2))))))"

declare engine.simps [code]

fun malformed :: "piece list \<Rightarrow> condition list" where
  "malformed [] = []"
| "malformed (Malformed s # ps) = InvalidDirective s # malformed ps"
| "malformed (p # ps) = malformed ps"

datatype verdict = Stable | IterationExceeded

record proc =
  out :: file_obj
  conditions :: "condition list"
  engine_passes :: nat
  final :: verdict

text \<open>
  Modelled from the spec: the result of \<open>processFile\<close> (parse.mjs, not among the
  sources), of which core.mjs reads the field \<open>content\<close>: the file with the resolved
  text, the conditions met (section 7), the number of passes and the final state, which is
  \<open>IterationExceeded\<close> when directives remain.
\<close>

definition finish :: "file_obj \<Rightarrow> piece list \<times> condition list \<times> nat \<Rightarrow> proc" where
  "finish f r =
     (case r of
        (ps, c, k) \<Rightarrow>
          \<lparr> out = f\<lparr>content := render ps\<rparr>,
            conditions = c @ malformed ps
               @ (if directives ps = [] then [] else [UnresolvedDirective]),
            engine_passes = k,
            final = (if directives ps = [] then Stable else IterationExceeded) \<rparr>)"

definition processFile :: "env \<Rightarrow> file_obj \<Rightarrow> json \<Rightarrow> proc option" where
  "processFile E f T =
     map_option (finish f) (engine E T (Resolve (path f) (scan (opts E) (content f)) 0))"



text \<open>
  The measure of the engine's termination under a cap: the passes a task has behind it, and
  the part of the current pass still ahead.
\<close>

fun passes_made :: "task \<Rightarrow> nat" where
  "passes_made (Resolve host ps k) = k"
| "passes_made (Pass host depth cur ps k) = k"

fun rank :: "task \<Rightarrow> nat" where
  "rank (Resolve host ps k) = 0"
| "rank (Pass host depth cur ps k) = Suc (length ps)"

section \<open>Processing entry points (core.mjs)\<close>

text \<open>
  \<open>processFile\<close> reads the registry and the options that \<open>setOptions\<close> stored; here they
  reach it through the environment. The evaluator and the text conversion are the host's.
\<close>

definition engine_env ::
    "options \<Rightarrow> registry \<Rightarrow> (string \<Rightarrow> string option) \<Rightarrow> (json \<Rightarrow> string) \<Rightarrow> env" where
  "engine_env os reg ev sf =
     \<lparr> opts = os,
       fragment = (\<lambda>p. map_option content (map_of (insertFiles reg) p)),
       layout = (\<lambda>p. map_option content (map_of (wrapFiles reg) p)),
       evaluate = ev,
       stringify = sf \<rparr>"

text \<open>\<open>options.jsonInput || {}\<close>: a missing or falsy value gives the empty object.\<close>

fun truthy :: "json \<Rightarrow> bool" where
  "truthy JNull = False"
| "truthy (JBool b) = b"
| "truthy (JNum n) = (n \<noteq> 0)"
| "truthy (JStr s) = (s \<noteq> [])"
| "truthy v = True"

definition json_or_empty :: "json option \<Rightarrow> json" where
  "json_or_empty j = (case j of None \<Rightarrow> JObj [] | Some v \<Rightarrow> if truthy v then v else JObj [])"

definition processContent ::
    "(string \<Rightarrow> string option) \<Rightarrow> (json \<Rightarrow> string) \<Rightarrow> registry \<Rightarrow> string \<Rightarrow> options \<Rightarrow> string
       \<Rightarrow> string option" where
  "processContent ev sf reg basePath os text =
     map_option (\<lambda>r. content (out r))
       (processFile (engine_env os reg ev sf)
          (createFileObject (path_join basePath ''virtual-file.html'') text)
          (json_or_empty (jsonInput os)))"

record result =
  res_path :: string
  res_name :: string
  res_content :: string

definition processSingleFile ::
    "(string \<Rightarrow> string option) \<Rightarrow> (json \<Rightarrow> string) \<Rightarrow> (string \<Rightarrow> string option) \<Rightarrow> registry
       \<Rightarrow> string \<Rightarrow> options \<Rightarrow> (js_error + result) option" where
  "processSingleFile ev sf rd reg filePath os =
     (case rd filePath of
        None \<Rightarrow> Some (Inl IOError)
      | Some text \<Rightarrow>
          (let f = createFileObject filePath text in
           map_option
             (\<lambda>r. Inr \<lparr> res_path = path f, res_name = name f, res_content = content (out r) \<rparr>)
             (processFile (engine_env os reg ev sf) f (json_or_empty (jsonInput os)))))"

text \<open>
  \<open>processDirectory\<close>. The first loop registers every file; an unreadable file or a
  TypeError of \<open>processClip\<close> ends the call. The second loop processes the page files in
  order, collects the results and writes each to the destination when one is given; a page
  whose resolution does not return leaves the call hanging, with the files written so far.
  \<open>path.relative\<close> is modelled for a file below the source directory.
\<close>

fun hashFiles :: "(string \<Rightarrow> string option) \<Rightarrow> string list \<Rightarrow> registry \<Rightarrow> js_error option \<times> registry" where
  "hashFiles rd [] reg = (None, reg)"
| "hashFiles rd (filePath # rest) reg =
     (case rd filePath of
        None \<Rightarrow> (Some IOError, reg)
      | Some text \<Rightarrow>
          (case hashFile (createFileObject filePath text) reg of
             Inl e \<Rightarrow> (Some e, reg)
           | Inr reg' \<Rightarrow> hashFiles rd rest reg'))"

record config =
  srcDir :: string
  destDir :: "string option"
  cfg_options :: options
  files :: "string list option"

definition relative :: "string \<Rightarrow> string \<Rightarrow> string" where
  "relative from p = (if prefix (from @ ''/'') p then drop (length from + 1) p else p)"

definition dest_given :: "config \<Rightarrow> bool" where
  "dest_given cfg = (case destDir cfg of None \<Rightarrow> False | Some d \<Rightarrow> d \<noteq> [])"

definition dest_path :: "config \<Rightarrow> file_obj \<Rightarrow> string" where
  "dest_path cfg f =
     path_join (case destDir cfg of None \<Rightarrow> [] | Some d \<Rightarrow> d) (relative (srcDir cfg) (path f))"

datatype status = Returned | Threw js_error | Hung

record outcome =
  status :: status
  results :: "result list"
  written :: "(string \<times> string) list"
  registry_after :: registry

fun processPages ::
    "env \<Rightarrow> config \<Rightarrow> file_obj list \<Rightarrow> result list \<Rightarrow> (string \<times> string) list
       \<Rightarrow> status \<times> result list \<times> (string \<times> string) list" where
  "processPages E cfg [] rs ws = (Returned, rs, ws)"
| "processPages E cfg (f # fs) rs ws =
     (case processFile E f (json_or_empty (jsonInput (cfg_options cfg))) of
        None \<Rightarrow> (Hung, rs, ws)
      | Some r \<Rightarrow>
          processPages E cfg fs
            (rs @ [\<lparr> res_path = path f, res_name = name f, res_content = content (out r) \<rparr>])
            (if dest_given cfg then ws @ [(dest_path cfg f, content (out r))] else ws))"

definition processDirectory ::
    "(string \<Rightarrow> string option) \<Rightarrow> (json \<Rightarrow> string) \<Rightarrow> (string \<Rightarrow> string option) \<Rightarrow> entry list
       \<Rightarrow> config \<Rightarrow> registry \<Rightarrow> outcome" where
  "processDirectory ev sf rd es cfg reg =
     (let allFiles = (case files cfg of Some fs \<Rightarrow> fs | None \<Rightarrow> discoverFiles (srcDir cfg) es)
      in case hashFiles rd allFiles reg of
           (Some e, reg') \<Rightarrow>
             \<lparr> status = Threw e, results = [], written = [], registry_after = reg' \<rparr>
         | (None, reg') \<Rightarrow>
             (case processPages (engine_env (cfg_options cfg) reg' ev sf) cfg (pageFiles reg') [] [] of
                (st, rs, ws) \<Rightarrow>
                  \<lparr> status = st, results = (if st = Returned then rs else []), written = ws,
                    registry_after = reg' \<rparr>))"

section \<open>Facts about the string operations\<close>

lemma indexOf_sublist: "(indexOf s pat > - 1) = sublist pat s"
proof (induction s)
  case Nil
  then show ?case by simp
next
  case (Cons c cs)
  show ?case
  proof (cases "prefix pat (c # cs)")
    case True
    then show ?thesis by (simp add: sublist_Cons_right)
  next
    case False
    with Cons show ?thesis by (auto simp: sublist_Cons_right Let_def)
  qed
qed

lemma marker_match_iff:
  "marker_match kw s = Some r \<longleftrightarrow>
     (\<exists>ws. s = ''<!--#'' @ kw @ ws @ ''-->'' @ r \<and> (\<forall>c\<in>set ws. is_space c))"
proof
  assume h: "marker_match kw s = Some r"
  define t where "t = drop (length (''<!--#'' @ kw)) s"
  from h have p1: "prefix (''<!--#'' @ kw) s" and p2: "prefix ''-->'' (dropWhile is_space t)"
    and r: "r = drop 3 (dropWhile is_space t)"
    by (auto simp: marker_match_def t_def Let_def split: if_splits)
  from p1 have s: "s = (''<!--#'' @ kw) @ t" by (auto simp: prefix_def t_def)
  from p2 r have d: "dropWhile is_space t = ''-->'' @ r" by (auto simp: prefix_def)
  have "t = takeWhile is_space t @ dropWhile is_space t" by simp
  with d have "t = takeWhile is_space t @ ''-->'' @ r" by simp
  with s have "s = ''<!--#'' @ kw @ takeWhile is_space t @ ''-->'' @ r" by simp
  moreover have "\<forall>c\<in>set (takeWhile is_space t). is_space c" by (auto dest: set_takeWhileD)
  ultimately show "\<exists>ws. s = ''<!--#'' @ kw @ ws @ ''-->'' @ r \<and> (\<forall>c\<in>set ws. is_space c)" by blast
next
  assume "\<exists>ws. s = ''<!--#'' @ kw @ ws @ ''-->'' @ r \<and> (\<forall>c\<in>set ws. is_space c)"
  then obtain ws where s: "s = ''<!--#'' @ kw @ ws @ ''-->'' @ r" and ws: "\<forall>c\<in>set ws. is_space c" by blast
  have "dropWhile is_space (ws @ ''-->'' @ r) = ''-->'' @ r"
    using ws by (simp add: dropWhile_append3 is_space_def)
  then show "marker_match kw s = Some r"
    by (simp add: marker_match_def s)
qed

lemma marker_match_hd: "marker_match kw s = Some r \<Longrightarrow> \<exists>t. s = CHR ''<'' # t"
  by (auto simp: marker_match_iff)

lemma split_marker_nonempty: "split_marker kw s \<noteq> []"
  by (induction kw s rule: split_marker.induct) (auto simp: cons_first_def split: option.splits list.splits)

lemma split_str_nonempty: "split_str sep s \<noteq> []"
  by (induction sep s rule: split_str.induct) (auto simp: cons_first_def split: list.splits)

lemma starts_inside_Nil: "\<not> starts_inside kw [] v"
  by (simp add: starts_inside_def)

lemma starts_inside_Cons:
  "starts_inside kw (c # u) v \<longleftrightarrow> marker_match kw (c # u @ v) \<noteq> None \<or> starts_inside kw u v"
  unfolding starts_inside_def
  apply (rule iffI)
   apply (elim exE conjE)
  subgoal for a b by (cases a) auto
  apply (erule disjE)
   apply (rule exI [of _ "[]"], rule exI [of _ "c # u"], simp)
  apply (elim exE conjE)
  subgoal for a b by (rule exI [of _ "c # a"], rule exI [of _ b], simp)
  done

lemma starts_inside_append:
  "starts_inside kw (u1 @ u2) v \<longleftrightarrow> starts_inside kw u1 (u2 @ v) \<or> starts_inside kw u2 v"
  by (induction u1) (auto simp: starts_inside_Nil starts_inside_Cons)

lemma split_marker_append:
  "\<not> starts_inside kw u v \<Longrightarrow>
   split_marker kw (u @ v) = (u @ hd (split_marker kw v)) # tl (split_marker kw v)"
proof (induction u)
  case Nil
  then show ?case using split_marker_nonempty [of kw v] by simp
next
  case (Cons c u)
  then have m: "marker_match kw (c # u @ v) = None" and n: "\<not> starts_inside kw u v"
    by (auto simp: starts_inside_Cons)
  from Cons.IH [OF n] m show ?case by (simp add: cons_first_def)
qed

lemma split_marker_match: "marker_match kw v = Some r \<Longrightarrow> split_marker kw v = [] # split_marker kw r"
  by (cases v) (auto simp: marker_match_def)

lemma split_marker_at:
  "\<not> starts_inside kw u v \<Longrightarrow> marker_match kw v = Some r \<Longrightarrow>
   split_marker kw (u @ v) = u # split_marker kw r"
  by (simp add: split_marker_append split_marker_match)

lemma split_marker_none: "\<not> starts_inside kw u [] \<Longrightarrow> split_marker kw u = [u]"
  using split_marker_append [of kw u "[]"] by simp

lemma has_marker_starts_inside: "has_marker kw u = starts_inside kw u []"
  by (induction u) (auto simp: starts_inside_Nil starts_inside_Cons)

lemma marker_matchI:
  "\<forall>c\<in>set ws. is_space c \<Longrightarrow> marker_match kw (''<!--#'' @ kw @ ws @ ''-->'' @ r) = Some r"
  unfolding marker_match_iff by blast

lemma marker_match_straddle:
  assumes kw: "CHR ''<'' \<notin> set kw" and m: "marker_match kw (b @ v) = Some r"
    and b: "b \<noteq> []" and v: "v = [] \<or> hd v = CHR ''<''"
  shows "marker_match kw b \<noteq> None"
proof -
  from m obtain ws where e: "b @ v = ''<!--#'' @ kw @ ws @ ''-->'' @ r" and ws: "\<forall>c\<in>set ws. is_space c"
    unfolding marker_match_iff by blast
  define M where "M = ''<!--#'' @ kw @ ws @ ''-->''"
  have MI: "marker_match kw (M @ t) = Some t" for t
    using marker_matchI [OF ws, of kw t] by (simp add: M_def)
  from e have "b @ v = M @ r" by (simp add: M_def)
  then obtain us where "(b = M @ us \<and> us @ v = r) \<or> (b @ us = M \<and> v = us @ r)"
    unfolding append_eq_append_conv2 by blast
  then show ?thesis
  proof
    assume "b = M @ us \<and> us @ v = r"
    then show ?thesis using MI [of us] by simp
  next
    assume h: "b @ us = M \<and> v = us @ r"
    show ?thesis
    proof (cases us)
      case Nil
      with h have "b = M" by simp
      then show ?thesis using MI [of "[]"] by simp
    next
      case (Cons x xs)
      with h v have x: "x = CHR ''<''" by auto
      from b obtain y ys where bb: "b = y # ys" by (cases b) auto
      from h Cons bb have "M = y # ys @ x # xs" by simp
      then have "x \<in> set (tl M)" by simp
      moreover have "tl M = ''!--#'' @ kw @ ws @ ''-->''" by (simp add: M_def)
      ultimately have "x \<in> set ''!--#'' \<or> x \<in> set kw \<or> x \<in> set ws \<or> x \<in> set ''-->''"
        by (simp only: set_append Un_iff)
      moreover have "x \<notin> set kw" unfolding x by (rule kw)
      moreover have "\<not> is_space (CHR ''<'')" by (simp add: is_space_def)
      then have "x \<notin> set ws" unfolding x using ws by blast
      moreover have "x \<notin> set ''!--#''" "x \<notin> set ''-->''" unfolding x by simp_all
      ultimately have False by blast
      then show ?thesis ..
    qed
  qed
qed

lemma no_starts_inside:
  assumes "CHR ''<'' \<notin> set kw" "\<not> has_marker kw u" "v = [] \<or> hd v = CHR ''<''"
  shows "\<not> starts_inside kw u v"
proof
  assume "starts_inside kw u v"
  then obtain a b r where u: "u = a @ b" and b: "b \<noteq> []" and m: "marker_match kw (b @ v) = Some r"
    by (auto simp: starts_inside_def)
  from marker_match_straddle [OF assms(1) m b assms(3)] have "marker_match kw (b @ []) \<noteq> None" by simp
  with u b have "starts_inside kw u []" unfolding starts_inside_def by blast
  with assms(2) show False by (simp add: has_marker_starts_inside)
qed

lemma prefix_straddle:
  assumes u: "hd sep \<notin> set (tl sep)" and m: "m \<noteq> []" and p: "prefix sep (m @ sep @ r)"
  shows "prefix sep m"
proof -
  from p have "prefix sep m \<or> (\<exists>us. sep = m @ us \<and> prefix us (sep @ r))"
    by (simp only: prefix_append)
  then show ?thesis
  proof
    assume "prefix sep m" then show ?thesis .
  next
    assume "\<exists>us. sep = m @ us \<and> prefix us (sep @ r)"
    then obtain us where s: "sep = m @ us" and q: "prefix us (sep @ r)" by blast
    show ?thesis
    proof (cases us)
      case Nil
      with s show ?thesis by simp
    next
      case (Cons x xs)
      from m obtain y ys where mm: "m = y # ys" by (cases m) auto
      from s mm Cons have sep: "sep = y # ys @ x # xs" by simp
      from q Cons sep have "x = y" by (simp add: prefix_def)
      with sep have "hd sep \<in> set (tl sep)" by simp
      with u show ?thesis by simp
    qed
  qed
qed

lemma split_str_first:
  assumes sep: "sep \<noteq> []" and u: "hd sep \<notin> set (tl sep)"
  shows "\<not> sublist sep m \<Longrightarrow> split_str sep (m @ sep @ r) = m # split_str sep r"
proof (induction m)
  case Nil
  from sep obtain y ys where "sep = y # ys" by (cases sep) auto
  then show ?case by simp
next
  case (Cons c m)
  from Cons.prems have n: "\<not> sublist sep m" and np: "\<not> prefix sep (c # m)"
    by (auto simp: sublist_Cons_right)
  have "\<not> prefix sep ((c # m) @ sep @ r)"
    using prefix_straddle [OF u, of "c # m" r] np by blast
  with Cons.IH [OF n] show ?case by (simp add: cons_first_def)
qed

lemma split_str_none: "\<not> sublist sep s \<Longrightarrow> split_str sep s = [s]"
proof (induction s)
  case Nil
  then show ?case by simp
next
  case (Cons c s)
  then have "\<not> sublist sep s" and "\<not> prefix sep (c # s)" by (auto simp: sublist_Cons_right)
  with Cons.IH show ?case by (simp add: cons_first_def)
qed

lemma no_start_without_lt: "CHR ''<'' \<notin> set t \<Longrightarrow> \<not> starts_inside kw t v"
proof (induction t)
  case Nil
  then show ?case by (simp add: starts_inside_Nil)
next
  case (Cons c t)
  have "marker_match kw (c # t @ v) = None"
  proof (cases "marker_match kw (c # t @ v)")
    case None then show ?thesis .
  next
    case (Some r)
    from marker_match_hd [OF this] Cons.prems show ?thesis by simp
  qed
  with Cons show ?case by (simp add: starts_inside_Cons)
qed

lemma starts_inside_lt:
  "CHR ''<'' \<notin> set t \<Longrightarrow>
   starts_inside kw (CHR ''<'' # t) v \<longleftrightarrow> marker_match kw (CHR ''<'' # t @ v) \<noteq> None"
  by (simp add: starts_inside_Cons no_start_without_lt)

lemma clipBeforeAfter_absent: "\<not> sublist ''<!--#clipbefore'' s \<Longrightarrow> clipBeforeAfter s = Inr s"
  by (simp add: clipBeforeAfter_def indexOf_sublist)

lemma clipBetween_absent: "\<not> sublist ''<!--#clipbetween'' s \<Longrightarrow> clipBetween s = Inr s"
  by (simp add: clipBetween_def indexOf_sublist)

lemma sublist_mid: "sublist p (a @ p @ b)"
  unfolding sublist_def by blast

lemma clipBeforeAfter_span:
  assumes pre: "\<not> has_marker ''clipbefore'' pre"
    and ws: "\<forall>c\<in>set ws. is_space c"
    and mid: "\<not> has_marker ''clipbefore'' mid"
    and after: "\<not> sublist ''<!--#clipafter'' mid"
  shows "clipBeforeAfter (pre @ ''<!--#clipbefore'' @ ws @ ''-->'' @ mid @ ''<!--#clipafter'' @ post)
           = Inr mid"
proof -
  define rest where "rest = mid @ ''<!--#clipafter'' @ post"
  define s where "s = pre @ ''<!--#clipbefore'' @ ws @ ''-->'' @ rest"
  have kw: "CHR ''<'' \<notin> set ''clipbefore''" by simp
  have i: "indexOf s ''<!--#clipbefore'' > - 1"
    unfolding indexOf_sublist s_def by (rule sublist_mid)
  have m: "marker_match ''clipbefore'' (''<!--#clipbefore'' @ ws @ ''-->'' @ rest) = Some rest"
    using marker_matchI [OF ws, of "''clipbefore''" rest] by simp
  have "\<not> starts_inside ''clipbefore'' pre (''<!--#clipbefore'' @ ws @ ''-->'' @ rest)"
    by (rule no_starts_inside [OF kw pre]) simp
  from split_marker_at [OF this m]
  have sp: "split_marker ''clipbefore'' s = pre # split_marker ''clipbefore'' rest"
    by (simp add: s_def)
  have a: "\<not> starts_inside ''clipbefore'' mid (''<!--#clipafter'' @ post)"
    by (rule no_starts_inside [OF kw mid]) simp
  have "marker_match ''clipbefore'' (''<!--#clipafter'' @ post) = None"
    by (simp add: marker_match_def)
  then have b: "\<not> starts_inside ''clipbefore'' ''<!--#clipafter'' post"
    using starts_inside_lt [of "''!--#clipafter''" "''clipbefore''" post] by simp
  from a b have c: "\<not> starts_inside ''clipbefore'' (mid @ ''<!--#clipafter'') post"
    by (simp only: starts_inside_append append_assoc) simp
  define P where "P = mid @ ''<!--#clipafter'' @ hd (split_marker ''clipbefore'' post)"
  from split_marker_append [OF c]
  have "split_marker ''clipbefore'' rest = P # tl (split_marker ''clipbefore'' post)"
    by (simp add: rest_def P_def)
  with sp have d: "drop (Suc 0) (split_marker ''clipbefore'' s) = P # tl (split_marker ''clipbefore'' post)"
    by simp
  have "split_str ''<!--#clipafter'' P
          = mid # split_str ''<!--#clipafter'' (hd (split_marker ''clipbefore'' post))"
    unfolding P_def by (rule split_str_first [OF _ _ after]) simp_all
  then have f: "take (Suc 0) (split_str ''<!--#clipafter'' P) = [mid]" by simp
  have "clipBeforeAfter s = Inr mid"
    unfolding clipBeforeAfter_def using i by (simp add: d f)
  then show ?thesis by (simp add: s_def rest_def)
qed

lemma split_marker_no_marker: "\<not> has_marker kw s \<Longrightarrow> split_marker kw s = [s]"
  by (simp add: has_marker_starts_inside split_marker_none)

lemma clipBeforeAfter_open:
  assumes pre: "\<not> has_marker ''clipbefore'' pre"
    and ws: "\<forall>c\<in>set ws. is_space c"
    and rest: "\<not> has_marker ''clipbefore'' rest"
    and after: "\<not> sublist ''<!--#clipafter'' rest"
  shows "clipBeforeAfter (pre @ ''<!--#clipbefore'' @ ws @ ''-->'' @ rest) = Inr rest"
proof -
  define s where "s = pre @ ''<!--#clipbefore'' @ ws @ ''-->'' @ rest"
  have kw: "CHR ''<'' \<notin> set ''clipbefore''" by simp
  have i: "indexOf s ''<!--#clipbefore'' > - 1"
    unfolding indexOf_sublist s_def by (rule sublist_mid)
  have m: "marker_match ''clipbefore'' (''<!--#clipbefore'' @ ws @ ''-->'' @ rest) = Some rest"
    using marker_matchI [OF ws, of "''clipbefore''" rest] by simp
  have "\<not> starts_inside ''clipbefore'' pre (''<!--#clipbefore'' @ ws @ ''-->'' @ rest)"
    by (rule no_starts_inside [OF kw pre]) simp
  from split_marker_at [OF this m]
  have "split_marker ''clipbefore'' s = pre # split_marker ''clipbefore'' rest"
    by (simp add: s_def)
  then have d: "drop (Suc 0) (split_marker ''clipbefore'' s) = [rest]"
    by (simp add: split_marker_no_marker [OF rest])
  have f: "take (Suc 0) (split_str ''<!--#clipafter'' rest) = [rest]"
    by (simp add: split_str_none [OF after])
  have "clipBeforeAfter s = Inr rest"
    unfolding clipBeforeAfter_def using i by (simp add: d f)
  then show ?thesis by (simp add: s_def)
qed

lemma clipBetween_span:
  assumes pre: "\<not> has_marker ''clipbetween'' pre"
    and ws1: "\<forall>c\<in>set ws1. is_space c" and ws2: "\<forall>c\<in>set ws2. is_space c"
    and mid1: "\<not> has_marker ''clipbetween'' mid" and mid2: "\<not> has_marker ''endclipbetween'' mid"
    and post1: "\<not> has_marker ''clipbetween'' post" and post2: "\<not> has_marker ''endclipbetween'' post"
  shows "clipBetween (pre @ ''<!--#clipbetween'' @ ws1 @ ''-->'' @ mid
                        @ ''<!--#endclipbetween'' @ ws2 @ ''-->'' @ post) = Inr (pre @ post)"
proof -
  define me where "me = ''<!--#endclipbetween'' @ ws2 @ ''-->''"
  define rest where "rest = mid @ me @ post"
  define s where "s = pre @ ''<!--#clipbetween'' @ ws1 @ ''-->'' @ rest"
  have kw: "CHR ''<'' \<notin> set ''clipbetween''" and kwe: "CHR ''<'' \<notin> set ''endclipbetween''"
    by simp_all
  have hd_me: "hd (me @ post) = CHR ''<''" by (simp add: me_def)
  have i: "indexOf s ''<!--#clipbetween'' > - 1"
    unfolding indexOf_sublist s_def by (rule sublist_mid)
  have m: "marker_match ''clipbetween'' (''<!--#clipbetween'' @ ws1 @ ''-->'' @ rest) = Some rest"
    using marker_matchI [OF ws1, of "''clipbetween''" rest] by simp
  have "\<not> starts_inside ''clipbetween'' pre (''<!--#clipbetween'' @ ws1 @ ''-->'' @ rest)"
    by (rule no_starts_inside [OF kw pre]) simp
  from split_marker_at [OF this m]
  have sp: "split_marker ''clipbetween'' s = pre # split_marker ''clipbetween'' rest"
    by (simp add: s_def)
  have a: "\<not> starts_inside ''clipbetween'' mid (me @ post)"
    by (rule no_starts_inside [OF kw mid1]) (simp add: hd_me)
  have "\<not> is_space (CHR ''<'')" by (simp add: is_space_def)
  with ws2 have lt: "CHR ''<'' \<notin> set (''!--#endclipbetween'' @ ws2 @ ''-->'')" by auto
  have me_eq: "me = CHR ''<'' # (''!--#endclipbetween'' @ ws2 @ ''-->'')" by (simp add: me_def)
  have "marker_match ''clipbetween'' (me @ post) = None"
    by (simp add: marker_match_def me_def)
  then have b: "\<not> starts_inside ''clipbetween'' me post"
    unfolding me_eq using starts_inside_lt [OF lt, of "''clipbetween''" post] by simp
  have c: "\<not> starts_inside ''clipbetween'' post []"
    using post1 by (simp add: has_marker_starts_inside)
  from a b c have "\<not> starts_inside ''clipbetween'' rest []"
    unfolding rest_def by (simp only: starts_inside_append append_Nil2) simp
  then have "split_marker ''clipbetween'' rest = [rest]" by (rule split_marker_none)
  with sp have d: "split_marker ''clipbetween'' s = [pre, rest]" by simp
  have me_m: "marker_match ''endclipbetween'' (me @ post) = Some post"
    using marker_matchI [OF ws2, of "''endclipbetween''" post] by (simp add: me_def)
  have "\<not> starts_inside ''endclipbetween'' mid (me @ post)"
    by (rule no_starts_inside [OF kwe mid2]) (simp add: hd_me)
  from split_marker_at [OF this me_m]
  have e: "split_marker ''endclipbetween'' rest = [mid, post]"
    by (simp add: rest_def split_marker_no_marker [OF post2])
  have "clipBetween s = Inr (pre @ post)"
    unfolding clipBetween_def using i by (simp add: d e)
  then show ?thesis by (simp add: s_def rest_def me_def)
qed

section \<open>Clip processing\<close>

text \<open>
  C2, as amended. For a fragment whose content has a first ClipBefore marker
  (\<open><!--#clipbefore\<close>, white space, \<open>-->\<close>) followed by a ClipAfter opener
  (\<open><!--#clipafter\<close>), where the text between them holds no further ClipBefore marker and
  no ClipBetween opener, \<open>processClip\<close> stores exactly the text strictly between the two:
  nothing before the ClipBefore marker and nothing from the ClipAfter opener on is kept.
\<close>

theorem clip_before_after_interior:
  assumes "\<not> has_marker ''clipbefore'' pre"
    and "\<forall>c\<in>set ws. is_space c"
    and "\<not> has_marker ''clipbefore'' mid"
    and "\<not> sublist ''<!--#clipafter'' mid"
    and "\<not> sublist ''<!--#clipbetween'' mid"
    and "content f = pre @ ''<!--#clipbefore'' @ ws @ ''-->'' @ mid @ ''<!--#clipafter'' @ post"
  shows "processClip f = Inr (f\<lparr>content := mid\<rparr>)"
proof -
  have "clipBeforeAfter (content f) = Inr mid"
    unfolding assms(6) by (rule clipBeforeAfter_span [OF assms(1-4)])
  moreover have "clipBetween mid = Inr mid"
    by (rule clipBetween_absent [OF assms(5)])
  ultimately show ?thesis by (simp add: processClip_def clip_content_def)
qed

theorem clip_before_after_interior_witness:
  "\<not> has_marker ''clipbefore'' ''<html>''
   \<and> list_all is_space '' ''
   \<and> \<not> has_marker ''clipbefore'' ''<p>x</p>''
   \<and> \<not> sublist ''<!--#clipafter'' ''<p>x</p>''
   \<and> \<not> sublist ''<!--#clipbetween'' ''<p>x</p>''
   \<and> processClip (createFileObject ''/src/-a.html''
          ''<html><!--#clipbefore --><p>x</p><!--#clipafter --></html>'')
       = Inr ((createFileObject ''/src/-a.html''
          ''<html><!--#clipbefore --><p>x</p><!--#clipafter --></html>'')\<lparr>content := ''<p>x</p>''\<rparr>)"
proof -
  have h1: "\<not> has_marker ''clipbefore'' ''<html>''" by (simp add: marker_match_def)
  have h2: "\<forall>c\<in>set '' ''. is_space c" by (simp add: is_space_def)
  have h3: "\<not> has_marker ''clipbefore'' ''<p>x</p>''" by (simp add: marker_match_def)
  have h4: "\<not> sublist ''<!--#clipafter'' ''<p>x</p>''" by (simp add: sublist_Cons_right)
  have h5: "\<not> sublist ''<!--#clipbetween'' ''<p>x</p>''" by (simp add: sublist_Cons_right)
  have c: "content (createFileObject ''/src/-a.html''
             ''<html><!--#clipbefore --><p>x</p><!--#clipafter --></html>'')
           = ''<html>'' @ ''<!--#clipbefore'' @ '' '' @ ''-->'' @ ''<p>x</p>'' @ ''<!--#clipafter'' @ '' --></html>''"
    by (simp add: createFileObject_def trim_def is_space_def)
  have h2': "list_all is_space '' ''" by (simp add: is_space_def)
  from clip_before_after_interior [OF h1 h2 h3 h4 h5 c] h1 h2' h3 h4 h5 show ?thesis by blast
qed

text \<open>
  C2 as stated fails when a second ClipBefore marker stands between the first one and
  the ClipAfter marker: the split keeps only the piece between the first two ClipBefore
  markers, here \<open>b\<close>, where the claim asks for \<open>b<!--#clipbefore -->c\<close>. It also fails
  when the span holds an excision: the second step of \<open>processClip\<close> runs on what the
  first one kept, and stores \<open>bd\<close>.
\<close>

theorem clip_before_after_counterexample:
  "processClip (createFileObject ''/src/-a.html''
       ''a<!--#clipbefore -->b<!--#clipbefore -->c<!--#clipafter -->d'')
     = Inr ((createFileObject ''/src/-a.html''
       ''a<!--#clipbefore -->b<!--#clipbefore -->c<!--#clipafter -->d'')\<lparr>content := ''b''\<rparr>)
   \<and> ''b'' \<noteq> ''b<!--#clipbefore -->c''
   \<and> processClip (createFileObject ''/src/-a.html''
       ''a<!--#clipbefore -->b<!--#clipbetween -->c<!--#endclipbetween -->d<!--#clipafter -->e'')
     = Inr ((createFileObject ''/src/-a.html''
       ''a<!--#clipbefore -->b<!--#clipbetween -->c<!--#endclipbetween -->d<!--#clipafter -->e'')
         \<lparr>content := ''bd''\<rparr>)
   \<and> ''bd'' \<noteq> ''b<!--#clipbetween -->c<!--#endclipbetween -->d''"
  by (simp add: processClip_def clip_content_def clipBeforeAfter_def clipBetween_def
      createFileObject_def trim_def marker_match_def cons_first_def is_space_def)

text \<open>
  C3, as amended. For a fragment whose content has no ClipBefore opener and exactly one
  ClipBetween marker followed by exactly one EndClipBetween marker, \<open>processClip\<close>
  removes the two markers and the text between them and keeps everything before the
  ClipBetween marker and everything after the EndClipBetween marker.
\<close>

theorem clip_between_excises_span:
  assumes "\<not> sublist ''<!--#clipbefore'' (content f)"
    and "\<not> has_marker ''clipbetween'' pre"
    and "\<forall>c\<in>set ws1. is_space c"
    and "\<forall>c\<in>set ws2. is_space c"
    and "\<not> has_marker ''clipbetween'' mid"
    and "\<not> has_marker ''endclipbetween'' mid"
    and "\<not> has_marker ''clipbetween'' post"
    and "\<not> has_marker ''endclipbetween'' post"
    and "content f = pre @ ''<!--#clipbetween'' @ ws1 @ ''-->'' @ mid
                       @ ''<!--#endclipbetween'' @ ws2 @ ''-->'' @ post"
  shows "processClip f = Inr (f\<lparr>content := pre @ post\<rparr>)"
proof -
  have "clipBeforeAfter (content f) = Inr (content f)"
    by (rule clipBeforeAfter_absent [OF assms(1)])
  moreover have "clipBetween (content f) = Inr (pre @ post)"
    unfolding assms(9) by (rule clipBetween_span [OF assms(2-8)])
  ultimately show ?thesis by (simp add: processClip_def clip_content_def)
qed

theorem clip_between_excises_span_witness:
  "\<not> sublist ''<!--#clipbefore'' ''<ul><!--#clipbetween --><li>demo</li><!--#endclipbetween --></ul>''
   \<and> \<not> has_marker ''clipbetween'' ''<ul>''
   \<and> list_all is_space '' '' \<and> list_all is_space '' ''
   \<and> \<not> has_marker ''clipbetween'' ''<li>demo</li>''
   \<and> \<not> has_marker ''endclipbetween'' ''<li>demo</li>''
   \<and> \<not> has_marker ''clipbetween'' ''</ul>''
   \<and> \<not> has_marker ''endclipbetween'' ''</ul>''
   \<and> processClip (createFileObject ''/src/-list.html''
          ''<ul><!--#clipbetween --><li>demo</li><!--#endclipbetween --></ul>'')
       = Inr ((createFileObject ''/src/-list.html''
          ''<ul><!--#clipbetween --><li>demo</li><!--#endclipbetween --></ul>'')\<lparr>content := ''<ul></ul>''\<rparr>)"
proof -
  let ?f = "createFileObject ''/src/-list.html''
          ''<ul><!--#clipbetween --><li>demo</li><!--#endclipbetween --></ul>''"
  have c: "content ?f = ''<ul>'' @ ''<!--#clipbetween'' @ '' '' @ ''-->'' @ ''<li>demo</li>''
                       @ ''<!--#endclipbetween'' @ '' '' @ ''-->'' @ ''</ul>''"
    by (simp add: createFileObject_def trim_def is_space_def)
  have h1: "\<not> sublist ''<!--#clipbefore'' (content ?f)"
    by (simp add: createFileObject_def trim_def is_space_def sublist_Cons_right)
  have h1': "\<not> sublist ''<!--#clipbefore'' ''<ul><!--#clipbetween --><li>demo</li><!--#endclipbetween --></ul>''"
    by (simp add: sublist_Cons_right)
  have h2: "\<not> has_marker ''clipbetween'' ''<ul>''" by (simp add: marker_match_def)
  have h3: "\<forall>c\<in>set '' ''. is_space c" by (simp add: is_space_def)
  have h3': "list_all is_space '' ''" by (simp add: is_space_def)
  have h5: "\<not> has_marker ''clipbetween'' ''<li>demo</li>''" by (simp add: marker_match_def)
  have h6: "\<not> has_marker ''endclipbetween'' ''<li>demo</li>''" by (simp add: marker_match_def)
  have h7: "\<not> has_marker ''clipbetween'' ''</ul>''" by (simp add: marker_match_def)
  have h8: "\<not> has_marker ''endclipbetween'' ''</ul>''" by (simp add: marker_match_def)
  from clip_between_excises_span [OF h1 h2 h3 h3 h5 h6 h7 h8 c]
  have "processClip ?f = Inr (?f\<lparr>content := ''<ul></ul>''\<rparr>)" by simp
  with h1' h2 h3' h5 h6 h7 h8 show ?thesis by blast
qed

text \<open>
  C3 as stated fails on a fragment with two excision spans: only the text between the
  first EndClipBetween marker and the next marker survives after the first span, so the
  second span and everything after it (here \<open>e\<close>) are lost with it. It also fails when
  the content has a ClipBefore marker: the bracketing step runs first, and the text outside
  its span (here \<open>x\<close> and \<open>y\<close>) is not kept.
\<close>

theorem clip_between_counterexample:
  "processClip (createFileObject ''/src/-list.html''
       ''a<!--#clipbetween -->b<!--#endclipbetween -->c<!--#clipbetween -->d<!--#endclipbetween -->e'')
     = Inr ((createFileObject ''/src/-list.html''
       ''a<!--#clipbetween -->b<!--#endclipbetween -->c<!--#clipbetween -->d<!--#endclipbetween -->e'')
         \<lparr>content := ''ac''\<rparr>)
   \<and> ''ac'' \<noteq> ''ac<!--#clipbetween -->d<!--#endclipbetween -->e''
   \<and> processClip (createFileObject ''/src/-list.html''
       ''x<!--#clipbefore -->a<!--#clipbetween -->b<!--#endclipbetween -->c<!--#clipafter -->y'')
     = Inr ((createFileObject ''/src/-list.html''
       ''x<!--#clipbefore -->a<!--#clipbetween -->b<!--#endclipbetween -->c<!--#clipafter -->y'')
         \<lparr>content := ''ac''\<rparr>)
   \<and> ''ac'' \<noteq> ''x<!--#clipbefore -->ac<!--#clipafter -->y''"
  by (simp add: processClip_def clip_content_def clipBeforeAfter_def clipBetween_def
      createFileObject_def trim_def marker_match_def cons_first_def is_space_def)

text \<open>
  C4, as amended. For a fragment whose content has a first ClipBefore marker and after it
  no ClipAfter opener, no further ClipBefore marker and no ClipBetween opener,
  \<open>processClip\<close> returns normally and stores the text after the ClipBefore marker; the
  marker and the text before it are discarded. \<open>processClip\<close> has no way to report a
  condition: its only results are the clipped file object or a raised error.
\<close>

theorem clip_before_without_after:
  assumes "\<not> has_marker ''clipbefore'' pre"
    and "\<forall>c\<in>set ws. is_space c"
    and "\<not> has_marker ''clipbefore'' rest"
    and "\<not> sublist ''<!--#clipafter'' rest"
    and "\<not> sublist ''<!--#clipbetween'' rest"
    and "content f = pre @ ''<!--#clipbefore'' @ ws @ ''-->'' @ rest"
  shows "processClip f = Inr (f\<lparr>content := rest\<rparr>)"
proof -
  have "clipBeforeAfter (content f) = Inr rest"
    unfolding assms(6) by (rule clipBeforeAfter_open [OF assms(1-4)])
  moreover have "clipBetween rest = Inr rest"
    by (rule clipBetween_absent [OF assms(5)])
  ultimately show ?thesis by (simp add: processClip_def clip_content_def)
qed

theorem clip_before_without_after_witness:
  "\<not> has_marker ''clipbefore'' ''<html>''
   \<and> list_all is_space '' ''
   \<and> \<not> has_marker ''clipbefore'' ''<p>x</p>''
   \<and> \<not> sublist ''<!--#clipafter'' ''<p>x</p>''
   \<and> \<not> sublist ''<!--#clipbetween'' ''<p>x</p>''
   \<and> processClip (createFileObject ''/src/-a.html'' ''<html><!--#clipbefore --><p>x</p>'')
       = Inr ((createFileObject ''/src/-a.html'' ''<html><!--#clipbefore --><p>x</p>'')
                \<lparr>content := ''<p>x</p>''\<rparr>)"
proof -
  have h1: "\<not> has_marker ''clipbefore'' ''<html>''" by (simp add: marker_match_def)
  have h2: "\<forall>c\<in>set '' ''. is_space c" by (simp add: is_space_def)
  have h2': "list_all is_space '' ''" by (simp add: is_space_def)
  have h3: "\<not> has_marker ''clipbefore'' ''<p>x</p>''" by (simp add: marker_match_def)
  have h4: "\<not> sublist ''<!--#clipafter'' ''<p>x</p>''" by (simp add: sublist_Cons_right)
  have h5: "\<not> sublist ''<!--#clipbetween'' ''<p>x</p>''" by (simp add: sublist_Cons_right)
  have c: "content (createFileObject ''/src/-a.html'' ''<html><!--#clipbefore --><p>x</p>'')
           = ''<html>'' @ ''<!--#clipbefore'' @ '' '' @ ''-->'' @ ''<p>x</p>''"
    by (simp add: createFileObject_def trim_def is_space_def)
  from clip_before_without_after [OF h1 h2 h3 h4 h5 c] h1 h2' h3 h4 h5 show ?thesis by blast
qed

text \<open>
  C4 as stated fails: a ClipBefore marker without a ClipAfter marker still clips, and the
  stored content is not the input content.
\<close>

theorem clip_unclosed_counterexample:
  "processClip (createFileObject ''/src/-a.html'' ''a<!--#clipbefore -->b'')
     = Inr ((createFileObject ''/src/-a.html'' ''a<!--#clipbefore -->b'')\<lparr>content := ''b''\<rparr>)
   \<and> ''b'' \<noteq> content (createFileObject ''/src/-a.html'' ''a<!--#clipbefore -->b'')"
  by (simp add: processClip_def clip_content_def clipBeforeAfter_def clipBetween_def
      createFileObject_def trim_def marker_match_def cons_first_def is_space_def)

text \<open>
  Two further malformed inputs, outside the amended claim: a ClipBetween marker without its
  end marker appends the text \<open>undefined\<close>, and an opener that is no complete marker
  raises a TypeError.
\<close>

lemma clip_between_unclosed_example:
  "clip_content ''a<!--#clipbetween -->b'' = Inr ''aundefined''"
  by (simp add: clip_content_def clipBeforeAfter_def clipBetween_def
      marker_match_def cons_first_def is_space_def)

lemma clip_opener_only_example:
  "clip_content ''a<!--#clipbefore'' = Inl TypeError"
  by (simp add: clip_content_def clipBeforeAfter_def clipBetween_def
      marker_match_def cons_first_def is_space_def)

section \<open>Registration\<close>

lemma set_update_subset: "snd ` set (AList.update k v al) \<subseteq> insert v (snd ` set al)"
  by (induction al) auto

lemma set_put_page: "set (put_page f fs) \<subseteq> insert f (set fs)"
  by (auto simp: put_page_def)

lemma records_configureFiles: "records (configureFiles f reg) \<subseteq> insert f (records reg)"
proof (cases "categorize (name f)")
  case Page
  with set_put_page [of f "pageFiles reg"] show ?thesis
    by (auto simp: records_def configureFiles_def)
next
  case InsertFragment
  with set_update_subset [of "path f" f "insertFiles reg"] show ?thesis
    by (auto simp: records_def configureFiles_def)
next
  case WrapFragment
  with set_update_subset [of "path f" f "wrapFiles reg"] show ?thesis
    by (auto simp: records_def configureFiles_def)
qed

lemma hashFile_Inr:
  "hashFile f reg = Inr reg' \<Longrightarrow>
     \<exists>s. clip_content (content f) = Inr s \<and> reg' = configureFiles (f\<lparr>content := s\<rparr>) reg"
  by (auto simp: hashFile_def processClip_def split: sum.splits)

lemma content_createFileObject: "content (createFileObject p raw) = trim raw"
  by (simp add: createFileObject_def)

text \<open>
  C5. Registration clips once, before it categorises: whatever the registration loop of
  \<open>processDirectory\<close> leaves in the registry, in any partition, is either a record that was
  there before, unchanged, or the file object made from a file's text with its content
  replaced by one application of clip processing. So a consumer of the registry sees the
  clipped form only, and no record is clipped a second time.
\<close>

theorem registered_records_clipped_once:
  assumes "hashFiles rd ps reg = (st, reg')" and "f \<in> records reg'"
  shows "f \<in> records reg \<or>
         (\<exists>p raw s. p \<in> set ps \<and> rd p = Some raw \<and> clip_content (trim raw) = Inr s
            \<and> f = (createFileObject p raw)\<lparr>content := s\<rparr>)"
  using assms
proof (induction ps arbitrary: reg)
  case Nil
  then show ?case by simp
next
  case (Cons p ps)
  show ?case
  proof (cases "rd p")
    case None
    with Cons.prems show ?thesis by simp
  next
    case (Some raw)
    show ?thesis
    proof (cases "hashFile (createFileObject p raw) reg")
      case (Inl e)
      with Some Cons.prems show ?thesis by simp
    next
      case (Inr reg1)
      from hashFile_Inr [OF Inr] obtain s where
        s: "clip_content (trim raw) = Inr s"
        and r1: "reg1 = configureFiles ((createFileObject p raw)\<lparr>content := s\<rparr>) reg"
        by (auto simp: content_createFileObject)
      from Cons.prems Some Inr have "hashFiles rd ps reg1 = (st, reg')" by simp
      from Cons.IH [OF this Cons.prems(2)]
      consider "f \<in> records reg1"
        | "\<exists>q raw s. q \<in> set ps \<and> rd q = Some raw \<and> clip_content (trim raw) = Inr s
            \<and> f = (createFileObject q raw)\<lparr>content := s\<rparr>" by blast
      then show ?thesis
      proof cases
        case 1
        with r1 records_configureFiles have
          "f = (createFileObject p raw)\<lparr>content := s\<rparr> \<or> f \<in> records reg" by blast
        with Some s show ?thesis by auto
      next
        case 2
        then show ?thesis by auto
      qed
    qed
  qed
qed

theorem registered_records_clipped_once_witness:
  "hashFiles (map_of [(''/src/-a.html'', ''x<!--#clipbefore -->y<!--#clipafter -->z'')])
       [''/src/-a.html''] empty_registry
     = (None, \<lparr> pageFiles = [],
          insertFiles = [(''/src/-a.html'',
             (createFileObject ''/src/-a.html'' ''x<!--#clipbefore -->y<!--#clipafter -->z'')
               \<lparr>content := ''y''\<rparr>)],
          wrapFiles = [] \<rparr>)
   \<and> (createFileObject ''/src/-a.html'' ''x<!--#clipbefore -->y<!--#clipafter -->z'')\<lparr>content := ''y''\<rparr>
       \<in> records \<lparr> pageFiles = [],
          insertFiles = [(''/src/-a.html'',
             (createFileObject ''/src/-a.html'' ''x<!--#clipbefore -->y<!--#clipafter -->z'')
               \<lparr>content := ''y''\<rparr>)],
          wrapFiles = [] \<rparr>
   \<and> ((createFileObject ''/src/-a.html'' ''x<!--#clipbefore -->y<!--#clipafter -->z'')\<lparr>content := ''y''\<rparr>
         \<in> records empty_registry
       \<or> (\<exists>p raw s. p \<in> set [''/src/-a.html'']
            \<and> map_of [(''/src/-a.html'', ''x<!--#clipbefore -->y<!--#clipafter -->z'')] p = Some raw
            \<and> clip_content (trim raw) = Inr s
            \<and> (createFileObject ''/src/-a.html'' ''x<!--#clipbefore -->y<!--#clipafter -->z'')\<lparr>content := ''y''\<rparr>
                = (createFileObject p raw)\<lparr>content := s\<rparr>))"
proof -
  let ?raw = "''x<!--#clipbefore -->y<!--#clipafter -->z''"
  let ?F = "(createFileObject ''/src/-a.html'' ?raw)\<lparr>content := ''y''\<rparr>"
  let ?R = "\<lparr> pageFiles = [], insertFiles = [(''/src/-a.html'', ?F)], wrapFiles = [] \<rparr>"
  have h1: "hashFiles (map_of [(''/src/-a.html'', ?raw)]) [''/src/-a.html''] empty_registry = (None, ?R)"
    by code_simp
  have h2: "?F \<in> records ?R" by (simp add: records_def)
  from registered_records_clipped_once [OF h1 h2] h1 h2 show ?thesis by blast
qed

text \<open>
  Clip processing is not idempotent, so that once and twice differ: the result of this
  text holds a ClipBetween marker again.
\<close>

lemma clip_twice_differs_example:
  "clip_content ''a<!--#clipbetween <!--#clipbetween -->Z<!--#endclipbetween -->-->b<!--#endclipbetween -->c''
     = Inr ''a<!--#clipbetween -->b''
   \<and> clip_content ''a<!--#clipbetween -->b'' = Inr ''aundefined''"
  by (simp add: clip_content_def clipBeforeAfter_def clipBetween_def
      marker_match_def cons_first_def is_space_def)

section \<open>Reset\<close>

lemma fold_delete: "fold AList.delete ks al = filter (\<lambda>kv. fst kv \<notin> set ks) al"
proof (induction ks arbitrary: al)
  case Nil
  then show ?case by simp
next
  case (Cons k ks)
  have "AList.delete k al = filter (\<lambda>kv. fst kv \<noteq> k) al"
    by (induction al) (auto simp: AList.delete_eq)
  with Cons show ?case by (simp add: conj_commute)
qed

lemma fold_delete_keys: "fold AList.delete (map fst al) al = []"
  by (simp add: fold_delete filter_empty_conv)

text \<open>
  C8. After any sequence of registrations, \<open>reset\<close> leaves the page, insert and wrap
  partitions empty, and no path has a record any more.
\<close>

theorem reset_clears_registry:
  "pageFiles (reset (snd (hashFiles rd ps reg))) = []
   \<and> insertFiles (reset (snd (hashFiles rd ps reg))) = []
   \<and> wrapFiles (reset (snd (hashFiles rd ps reg))) = []
   \<and> lookup (reset (snd (hashFiles rd ps reg))) p = None"
  by (simp add: reset_def fold_delete_keys lookup_def)

section \<open>Loading dependencies\<close>

lemma configureFiles_pages:
  "pageFiles (configureFiles f reg) =
     (if categorize (name f) = Page then put_page f (pageFiles reg) else pageFiles reg)"
  by (simp add: configureFiles_def split: category.splits)

lemma configureFiles_inserts:
  "insertFiles (configureFiles f reg) =
     (if categorize (name f) = InsertFragment then AList.update (path f) f (insertFiles reg)
      else insertFiles reg)"
  by (simp add: configureFiles_def split: category.splits)

lemma configureFiles_wraps:
  "wrapFiles (configureFiles f reg) =
     (if categorize (name f) = WrapFragment then AList.update (path f) f (wrapFiles reg)
      else wrapFiles reg)"
  by (simp add: configureFiles_def split: category.splits)

lemma categorize_insert: "categorize nm = InsertFragment \<longleftrightarrow> startsWith nm ''-''"
  by (simp add: categorize_def)

lemma categorize_wrap:
  "categorize nm = WrapFragment \<longleftrightarrow> startsWith nm ''_''"
  by (auto simp: categorize_def startsWith_def prefix_def)

lemma categorize_page:
  "categorize nm = Page \<longleftrightarrow> \<not> startsWith nm ''-'' \<and> \<not> startsWith nm ''_''"
  by (simp add: categorize_def)

lemma hashFile_created:
  assumes "hashFile (createFileObject p raw) reg = Inr reg'"
  shows "\<exists>f. name f = basename p \<and> path f = p \<and> reg' = configureFiles f reg"
proof -
  from hashFile_Inr [OF assms] obtain s where
    "reg' = configureFiles ((createFileObject p raw)\<lparr>content := s\<rparr>) reg" by blast
  moreover have "name ((createFileObject p raw)\<lparr>content := s\<rparr>) = basename p"
    and "path ((createFileObject p raw)\<lparr>content := s\<rparr>) = p"
    by (simp_all add: createFileObject_def)
  ultimately show ?thesis by blast
qed

lemma loadFiles_registers:
  assumes "loadFiles rd ps reg = (st, reg')"
  shows "pageFiles reg' = pageFiles reg
    \<and> fst ` set (insertFiles reg') \<subseteq> fst ` set (insertFiles reg) \<union> {p \<in> set ps. startsWith (basename p) ''-''}
    \<and> fst ` set (wrapFiles reg') \<subseteq> fst ` set (wrapFiles reg) \<union> {p \<in> set ps. startsWith (basename p) ''_''}
    \<and> (st = None \<longrightarrow>
         fst ` set (insertFiles reg') = fst ` set (insertFiles reg) \<union> {p \<in> set ps. startsWith (basename p) ''-''}
       \<and> fst ` set (wrapFiles reg') = fst ` set (wrapFiles reg) \<union> {p \<in> set ps. startsWith (basename p) ''_''})"
  using assms
proof (induction ps arbitrary: reg)
  case Nil
  then show ?case by simp
next
  case (Cons p ps)
  show ?case
  proof (cases "startsWith (basename p) ''-'' \<or> startsWith (basename p) ''_''")
    case False
    with Cons.prems have "loadFiles rd ps reg = (st, reg')" by simp
    from Cons.IH [OF this] False show ?thesis by auto
  next
    case frag: True
    show ?thesis
    proof (cases "rd p")
      case None
      with frag Cons.prems show ?thesis by auto
    next
      case (Some raw)
      show ?thesis
      proof (cases "hashFile (createFileObject p raw) reg")
        case (Inl e)
        with frag Some Cons.prems show ?thesis by auto
      next
        case (Inr reg1)
        from hashFile_created [OF Inr] obtain f where
          f: "name f = basename p" "path f = p" and r1: "reg1 = configureFiles f reg" by blast
        from frag Some Inr Cons.prems have l: "loadFiles rd ps reg1 = (st, reg')" by simp
        have np: "categorize (name f) \<noteq> Page" using frag f by (simp add: categorize_page)
        have pg: "pageFiles reg1 = pageFiles reg"
          using np by (simp add: r1 configureFiles_pages)
        have ins: "fst ` set (insertFiles reg1) =
            fst ` set (insertFiles reg) \<union> (if startsWith (basename p) ''-'' then {p} else {})"
          using f by (simp add: r1 configureFiles_inserts categorize_insert AList.dom_update)
        have wr: "fst ` set (wrapFiles reg1) =
            fst ` set (wrapFiles reg) \<union> (if startsWith (basename p) ''_'' then {p} else {})"
          using f by (simp add: r1 configureFiles_wraps categorize_wrap AList.dom_update)
        define A where "A = fst ` set (insertFiles reg)"
        define A1 where "A1 = fst ` set (insertFiles reg1)"
        define A' where "A' = fst ` set (insertFiles reg')"
        define B where "B = fst ` set (wrapFiles reg)"
        define B1 where "B1 = fst ` set (wrapFiles reg1)"
        define B' where "B' = fst ` set (wrapFiles reg')"
        define I where "I = {q \<in> set ps. startsWith (basename q) ''-''}"
        define W where "W = {q \<in> set ps. startsWith (basename q) ''_''}"
        define Ip where "Ip = (if startsWith (basename p) ''-'' then {p} else {})"
        define Wp where "Wp = (if startsWith (basename p) ''_'' then {p} else {})"
        have I2: "{q \<in> set (p # ps). startsWith (basename q) ''-''} = Ip \<union> I"
          unfolding I_def Ip_def by auto
        have W2: "{q \<in> set (p # ps). startsWith (basename q) ''_''} = Wp \<union> W"
          unfolding W_def Wp_def by auto
        from Cons.IH [OF l] have ih: "pageFiles reg' = pageFiles reg1" "A' \<subseteq> A1 \<union> I" "B' \<subseteq> B1 \<union> W"
          "st = None \<longrightarrow> A' = A1 \<union> I \<and> B' = B1 \<union> W"
          unfolding A'_def A1_def B'_def B1_def I_def W_def by blast+
        from ins have a1: "A1 = A \<union> Ip" unfolding A1_def A_def Ip_def .
        from wr have b1: "B1 = B \<union> Wp" unfolding B1_def B_def Wp_def .
        have "pageFiles reg' = pageFiles reg" using ih(1) pg by simp
        moreover have "A' \<subseteq> A \<union> (Ip \<union> I)" using ih(2) a1 by blast
        moreover have "B' \<subseteq> B \<union> (Wp \<union> W)" using ih(3) b1 by blast
        moreover have "st = None \<longrightarrow> A' = A \<union> (Ip \<union> I) \<and> B' = B \<union> (Wp \<union> W)"
          using ih(4) a1 b1 by blast
        ultimately show ?thesis
          unfolding I2 W2 A_def A'_def B_def B'_def by blast
      qed
    qed
  qed
qed

text \<open>
  C9, as amended. \<open>loadDependencies\<close> never registers a page: the page partition is as
  before, and every path it adds to the insert (wrap) partition is a discovered file whose
  base name starts with \<open>-\<close> (\<open>_\<close>). When it returns without an error, the paths it adds
  are exactly those discovered files.
\<close>

theorem loadDependencies_registers_fragments:
  assumes "loadDependencies rd baseDir es reg = (st, reg')"
  shows "pageFiles reg' = pageFiles reg
    \<and> fst ` set (insertFiles reg')
        \<subseteq> fst ` set (insertFiles reg) \<union> {p \<in> set (discoverFiles baseDir es). startsWith (basename p) ''-''}
    \<and> fst ` set (wrapFiles reg')
        \<subseteq> fst ` set (wrapFiles reg) \<union> {p \<in> set (discoverFiles baseDir es). startsWith (basename p) ''_''}
    \<and> (st = None \<longrightarrow>
         fst ` set (insertFiles reg')
           = fst ` set (insertFiles reg) \<union> {p \<in> set (discoverFiles baseDir es). startsWith (basename p) ''-''}
       \<and> fst ` set (wrapFiles reg')
           = fst ` set (wrapFiles reg) \<union> {p \<in> set (discoverFiles baseDir es). startsWith (basename p) ''_''})"
  using assms unfolding loadDependencies_def by (rule loadFiles_registers)

theorem loadDependencies_registers_fragments_witness:
  "(let es = [File ''-nav.html'', File ''_layout.html'', File ''index.html'',
              Dir ''sub'' [File ''-x.html'', File ''notes.txt'']];
        r = loadDependencies (\<lambda>p. Some ''<p>hi</p>'') ''/src'' es empty_registry
    in fst r = None
       \<and> pageFiles (snd r) = []
       \<and> fst ` set (insertFiles (snd r)) = {''/src/-nav.html'', ''/src/sub/-x.html''}
       \<and> fst ` set (wrapFiles (snd r)) = {''/src/_layout.html''}
       \<and> fst ` set (insertFiles (snd r))
           = fst ` set (insertFiles empty_registry)
               \<union> {p \<in> set (discoverFiles ''/src'' es). startsWith (basename p) ''-''}
       \<and> fst ` set (wrapFiles (snd r))
           = fst ` set (wrapFiles empty_registry)
               \<union> {p \<in> set (discoverFiles ''/src'' es). startsWith (basename p) ''_''})"
proof -
  let ?es = "[File ''-nav.html'', File ''_layout.html'', File ''index.html'',
              Dir ''sub'' [File ''-x.html'', File ''notes.txt'']]"
  let ?r = "loadDependencies (\<lambda>p. Some ''<p>hi</p>'') ''/src'' ?es empty_registry"
  have st: "fst ?r = None" by code_simp
  have pg: "pageFiles (snd ?r) = []" by code_simp
  have ins: "map fst (insertFiles (snd ?r)) = [''/src/-nav.html'', ''/src/sub/-x.html'']" by code_simp
  have wr: "map fst (wrapFiles (snd ?r)) = [''/src/_layout.html'']" by code_simp
  have ins': "fst ` set (insertFiles (snd ?r)) = {''/src/-nav.html'', ''/src/sub/-x.html''}"
    using arg_cong [OF ins, of set] by simp
  have wr': "fst ` set (wrapFiles (snd ?r)) = {''/src/_layout.html''}"
    using arg_cong [OF wr, of set] by simp
  have h: "?r = (None, snd ?r)" using st by (simp add: prod_eq_iff)
  from loadDependencies_registers_fragments [OF h] st pg ins' wr'
  show ?thesis unfolding Let_def by blast
qed

text \<open>
  C9 as stated fails when the loop ends early: it has no handler, so the first fragment
  that cannot be read, or on which \<open>processClip\<close> raises, ends the call, and the
  fragments after it are not registered. Here \<open>-b.html\<close> is such a file, and \<open>-c.html\<close>,
  discovered and named like a fragment, stays out of the registry.
\<close>

theorem loadDependencies_stops_counterexample:
  "(let es = [File ''-a.html'', File ''-b.html'', File ''-c.html''];
        unread = loadDependencies
                   (map_of [(''/src/-a.html'', ''<p>a</p>''), (''/src/-c.html'', ''<p>c</p>'')])
                   ''/src'' es empty_registry;
        raised = loadDependencies
                   (map_of [(''/src/-a.html'', ''<p>a</p>''), (''/src/-b.html'', ''a<!--#clipbefore''),
                            (''/src/-c.html'', ''<p>c</p>'')])
                   ''/src'' es empty_registry
    in discoverFiles ''/src'' es = [''/src/-a.html'', ''/src/-b.html'', ''/src/-c.html'']
       \<and> startsWith (basename ''/src/-c.html'') ''-''
       \<and> fst unread = Some IOError
       \<and> map fst (insertFiles (snd unread)) = [''/src/-a.html'']
       \<and> fst raised = Some TypeError
       \<and> map fst (insertFiles (snd raised)) = [''/src/-a.html''])"
  by code_simp

section \<open>Processing a directory\<close>

lemma wf_registry_configureFiles:
  assumes wf: "wf_registry reg" and nm: "name f = basename (path f)"
  shows "wf_registry (configureFiles f reg)"
proof -
  let ?P = "\<lambda>c g. name g = basename (path g) \<and> categorize (name g) = c"
  from wf have p: "\<forall>g\<in>set (pageFiles reg). ?P Page g"
    and i: "\<forall>g\<in>snd ` set (insertFiles reg). ?P InsertFragment g"
    and w: "\<forall>g\<in>snd ` set (wrapFiles reg). ?P WrapFragment g"
    unfolding wf_registry_def by blast+
  have p': "\<forall>g\<in>set (pageFiles (configureFiles f reg)). ?P Page g"
  proof (cases "categorize (name f) = Page")
    case True
    have "set (put_page f (pageFiles reg)) \<subseteq> insert f (set (pageFiles reg))"
      by (rule set_put_page)
    moreover have "\<forall>g\<in>insert f (set (pageFiles reg)). ?P Page g"
      using p nm True by blast
    ultimately have "\<forall>g\<in>set (put_page f (pageFiles reg)). ?P Page g" by blast
    with True show ?thesis by (simp only: configureFiles_pages simp_thms if_True)
  next
    case False
    with p show ?thesis by (simp only: configureFiles_pages if_False)
  qed
  have i': "\<forall>g\<in>snd ` set (insertFiles (configureFiles f reg)). ?P InsertFragment g"
  proof (cases "categorize (name f) = InsertFragment")
    case True
    have "snd ` set (AList.update (path f) f (insertFiles reg)) \<subseteq> insert f (snd ` set (insertFiles reg))"
      by (rule set_update_subset)
    moreover have "\<forall>g\<in>insert f (snd ` set (insertFiles reg)). ?P InsertFragment g"
      using i nm True by blast
    ultimately have "\<forall>g\<in>snd ` set (AList.update (path f) f (insertFiles reg)). ?P InsertFragment g"
      by blast
    with True show ?thesis by (simp only: configureFiles_inserts simp_thms if_True)
  next
    case False
    with i show ?thesis by (simp only: configureFiles_inserts if_False)
  qed
  have w': "\<forall>g\<in>snd ` set (wrapFiles (configureFiles f reg)). ?P WrapFragment g"
  proof (cases "categorize (name f) = WrapFragment")
    case True
    have "snd ` set (AList.update (path f) f (wrapFiles reg)) \<subseteq> insert f (snd ` set (wrapFiles reg))"
      by (rule set_update_subset)
    moreover have "\<forall>g\<in>insert f (snd ` set (wrapFiles reg)). ?P WrapFragment g"
      using w nm True by blast
    ultimately have "\<forall>g\<in>snd ` set (AList.update (path f) f (wrapFiles reg)). ?P WrapFragment g"
      by blast
    with True show ?thesis by (simp only: configureFiles_wraps simp_thms if_True)
  next
    case False
    with w show ?thesis by (simp only: configureFiles_wraps if_False)
  qed
  from p' i' w' show ?thesis unfolding wf_registry_def by blast
qed

lemma wf_registry_hashFiles:
  "wf_registry reg \<Longrightarrow> hashFiles rd ps reg = (st, reg') \<Longrightarrow> wf_registry reg'"
proof (induction ps arbitrary: reg)
  case Nil
  then show ?case by simp
next
  case (Cons p ps)
  show ?case
  proof (cases "rd p")
    case None
    with Cons.prems show ?thesis by simp
  next
    case (Some raw)
    show ?thesis
    proof (cases "hashFile (createFileObject p raw) reg")
      case (Inl e)
      with Some Cons.prems show ?thesis by simp
    next
      case (Inr reg1)
      from hashFile_created [OF Inr] obtain f where
        f: "name f = basename p" "path f = p" and r1: "reg1 = configureFiles f reg" by blast
      have "wf_registry reg1"
        unfolding r1 using Cons.prems(1) f by (intro wf_registry_configureFiles) simp_all
      moreover from Some Inr Cons.prems have "hashFiles rd ps reg1 = (st, reg')" by simp
      ultimately show ?thesis by (rule Cons.IH)
    qed
  qed
qed

lemma processPages_sources:
  assumes "processPages E cfg fs rs ws = (st, rs', ws')"
  shows "(\<forall>r\<in>set rs'. r \<in> set rs \<or> (\<exists>f\<in>set fs. res_path r = path f \<and> res_name r = name f))
       \<and> (\<forall>w\<in>set ws'. w \<in> set ws \<or> (\<exists>f\<in>set fs. fst w = dest_path cfg f))"
  using assms
proof (induction fs arbitrary: rs ws)
  case Nil
  then show ?case by simp
next
  case (Cons f fs)
  show ?case
  proof (cases "processFile E f (json_or_empty (jsonInput (cfg_options cfg)))")
    case None
    with Cons.prems show ?thesis by simp
  next
    case (Some r)
    define rs1 where "rs1 = rs @ [\<lparr> res_path = path f, res_name = name f, res_content = content (out r) \<rparr>]"
    define ws1 where "ws1 = (if dest_given cfg then ws @ [(dest_path cfg f, content (out r))] else ws)"
    from Cons.prems Some have "processPages E cfg fs rs1 ws1 = (st, rs', ws')"
      by (simp add: rs1_def ws1_def)
    from Cons.IH [OF this]
    have a: "\<forall>x\<in>set rs'. x \<in> set rs1 \<or> (\<exists>g\<in>set fs. res_path x = path g \<and> res_name x = name g)"
      and b: "\<forall>w\<in>set ws'. w \<in> set ws1 \<or> (\<exists>g\<in>set fs. fst w = dest_path cfg g)" by blast+
    have "\<forall>x\<in>set rs'. x \<in> set rs \<or> (\<exists>g\<in>set (f # fs). res_path x = path g \<and> res_name x = name g)"
    proof
      fix x assume "x \<in> set rs'"
      with a have "x \<in> set rs1 \<or> (\<exists>g\<in>set fs. res_path x = path g \<and> res_name x = name g)" by blast
      then show "x \<in> set rs \<or> (\<exists>g\<in>set (f # fs). res_path x = path g \<and> res_name x = name g)"
        by (auto simp: rs1_def)
    qed
    moreover have "\<forall>w\<in>set ws'. w \<in> set ws \<or> (\<exists>g\<in>set (f # fs). fst w = dest_path cfg g)"
    proof
      fix w assume "w \<in> set ws'"
      with b have "w \<in> set ws1 \<or> (\<exists>g\<in>set fs. fst w = dest_path cfg g)" by blast
      then show "w \<in> set ws \<or> (\<exists>g\<in>set (f # fs). fst w = dest_path cfg g)"
        by (auto simp: ws1_def split: if_splits)
    qed
    ultimately show ?thesis by blast
  qed
qed

text \<open>
  C10. The results of \<open>processDirectory\<close> and the files it writes come from the page
  partition only: each result and each written file belongs to a page record, and no record
  of the insert or wrap partition has an entry in the results. This holds from any registry
  that registration has built, the empty one included.
\<close>

theorem processDirectory_pages_only:
  assumes "wf_registry reg"
  shows "(\<forall>r\<in>set (results (processDirectory ev sf rd es cfg reg)).
            \<exists>f\<in>set (pageFiles (registry_after (processDirectory ev sf rd es cfg reg))).
               res_path r = path f \<and> res_name r = name f \<and> categorize (name f) = Page)
       \<and> (\<forall>w\<in>set (written (processDirectory ev sf rd es cfg reg)).
            \<exists>f\<in>set (pageFiles (registry_after (processDirectory ev sf rd es cfg reg))).
               fst w = dest_path cfg f \<and> categorize (name f) = Page)
       \<and> (\<forall>g\<in>snd ` set (insertFiles (registry_after (processDirectory ev sf rd es cfg reg)))
               \<union> snd ` set (wrapFiles (registry_after (processDirectory ev sf rd es cfg reg))).
            path g \<notin> res_path ` set (results (processDirectory ev sf rd es cfg reg)))"
proof -
  define allFiles where
    "allFiles = (case files cfg of Some fs \<Rightarrow> fs | None \<Rightarrow> discoverFiles (srcDir cfg) es)"
  obtain e reg1 where h: "hashFiles rd allFiles reg = (e, reg1)" by (cases "hashFiles rd allFiles reg")
  from wf_registry_hashFiles [OF assms h] have wf: "wf_registry reg1" .
  from wf have wp: "\<forall>f\<in>set (pageFiles reg1). name f = basename (path f) \<and> categorize (name f) = Page"
    and wi: "\<forall>f\<in>snd ` set (insertFiles reg1).
            name f = basename (path f) \<and> categorize (name f) = InsertFragment"
    and ww: "\<forall>f\<in>snd ` set (wrapFiles reg1).
            name f = basename (path f) \<and> categorize (name f) = WrapFragment"
    unfolding wf_registry_def by blast+
  have pg: "f \<in> set (pageFiles reg1) \<Longrightarrow> name f = basename (path f) \<and> categorize (name f) = Page" for f
    using wp by blast
  have fr: "name g = basename (path g) \<and> categorize (name g) \<noteq> Page"
    if g: "g \<in> snd ` set (insertFiles reg1) \<union> snd ` set (wrapFiles reg1)" for g
  proof -
    from g have "g \<in> snd ` set (insertFiles reg1) \<or> g \<in> snd ` set (wrapFiles reg1)" by blast
    then show ?thesis
    proof
      assume "g \<in> snd ` set (insertFiles reg1)"
      with wi have "name g = basename (path g)" "categorize (name g) = InsertFragment" by blast+
      then show ?thesis by simp
    next
      assume "g \<in> snd ` set (wrapFiles reg1)"
      with ww have "name g = basename (path g)" "categorize (name g) = WrapFragment" by blast+
      then show ?thesis by simp
    qed
  qed
  show ?thesis
  proof (cases e)
    case (Some err)
    with h show ?thesis by (simp add: processDirectory_def allFiles_def [symmetric])
  next
    case None
    obtain st rs ws where
      pp: "processPages (engine_env (cfg_options cfg) reg1 ev sf) cfg (pageFiles reg1) [] [] = (st, rs, ws)"
      by (cases "processPages (engine_env (cfg_options cfg) reg1 ev sf) cfg (pageFiles reg1) [] []") auto
    from processPages_sources [OF pp]
    have a: "\<forall>r\<in>set rs. \<exists>f\<in>set (pageFiles reg1). res_path r = path f \<and> res_name r = name f"
      and b: "\<forall>w\<in>set ws. \<exists>f\<in>set (pageFiles reg1). fst w = dest_path cfg f" by auto
    have out: "processDirectory ev sf rd es cfg reg =
        \<lparr> status = st, results = (if st = Returned then rs else []), written = ws,
          registry_after = reg1 \<rparr>"
      using h None pp by (simp add: processDirectory_def allFiles_def [symmetric])
    have sub: "set (if st = Returned then rs else []) \<subseteq> set rs"
      by (cases "st = Returned") simp_all
    have c1: "\<forall>r\<in>set (if st = Returned then rs else []).
            \<exists>f\<in>set (pageFiles reg1). res_path r = path f \<and> res_name r = name f \<and> categorize (name f) = Page"
    proof
      fix r assume "r \<in> set (if st = Returned then rs else [])"
      with sub have "r \<in> set rs" by blast
      with a obtain f where f: "f \<in> set (pageFiles reg1)" "res_path r = path f" "res_name r = name f"
        by blast
      with pg [OF f(1)] show "\<exists>f\<in>set (pageFiles reg1).
          res_path r = path f \<and> res_name r = name f \<and> categorize (name f) = Page" by blast
    qed
    have c2: "\<forall>w\<in>set ws. \<exists>f\<in>set (pageFiles reg1).
               fst w = dest_path cfg f \<and> categorize (name f) = Page"
      using b pg by blast
    have c3: "\<forall>g\<in>snd ` set (insertFiles reg1) \<union> snd ` set (wrapFiles reg1).
            path g \<notin> res_path ` set (if st = Returned then rs else [])"
    proof
      fix g assume g: "g \<in> snd ` set (insertFiles reg1) \<union> snd ` set (wrapFiles reg1)"
      show "path g \<notin> res_path ` set (if st = Returned then rs else [])"
      proof
        assume "path g \<in> res_path ` set (if st = Returned then rs else [])"
        then obtain r where r: "r \<in> set (if st = Returned then rs else [])" "path g = res_path r"
          by blast
        from c1 r(1) obtain f where f: "f \<in> set (pageFiles reg1)" "res_path r = path f"
          "categorize (name f) = Page" by blast
        from pg [OF f(1)] have nf: "name f = basename (path f)" by simp
        from fr [OF g] have ng: "name g = basename (path g)" and cg: "categorize (name g) \<noteq> Page"
          by blast+
        from r(2) f(2) have "path g = path f" by simp
        with nf ng have "name g = name f" by simp
        with cg f(3) show False by simp
      qed
    qed
    from c1 c2 c3 show ?thesis unfolding out by simp
  qed
qed

theorem processDirectory_pages_only_witness:
  "(let out = processDirectory (\<lambda>e. None) (\<lambda>j. [])
          (\<lambda>p. Some (if p = ''/src/index.html''
                       then ''<h1><!--#insert path=\"/src/-nav.html\" --></h1>'' else ''<p>hi</p>''))
          [File ''-nav.html'', File ''_layout.html'', File ''index.html'']
          \<lparr> srcDir = ''/src'', destDir = Some ''/dist'',
            cfg_options = \<lparr> jsonInput = None, insertPattern = None, filePathAttribute = ''path'',
                            jsonPathAttribute = ''jsonPath'', limitIterations = None \<rparr>,
            files = None \<rparr>
          empty_registry
    in wf_registry empty_registry
       \<and> results out = [\<lparr> res_path = ''/src/index.html'', res_name = ''index.html'',
                           res_content = ''<h1><p>hi</p></h1>'' \<rparr>]
       \<and> written out = [(''/dist/index.html'', ''<h1><p>hi</p></h1>'')]
       \<and> map fst (insertFiles (registry_after out)) = [''/src/-nav.html'']
       \<and> map fst (wrapFiles (registry_after out)) = [''/src/_layout.html'']
       \<and> list_all (\<lambda>r. list_ex (\<lambda>f. res_path r = path f \<and> res_name r = name f
                                      \<and> categorize (name f) = Page)
                        (pageFiles (registry_after out))) (results out)
       \<and> list_all (\<lambda>g. path g \<notin> res_path ` set (results out))
            (map snd (insertFiles (registry_after out)) @ map snd (wrapFiles (registry_after out))))"
proof -
  let ?cfg = "\<lparr> srcDir = ''/src'', destDir = Some ''/dist'',
            cfg_options = \<lparr> jsonInput = None, insertPattern = None, filePathAttribute = ''path'',
                            jsonPathAttribute = ''jsonPath'', limitIterations = None \<rparr>,
            files = None \<rparr>"
  let ?out = "processDirectory (\<lambda>e. None) (\<lambda>j. [])
          (\<lambda>p. Some (if p = ''/src/index.html''
                       then ''<h1><!--#insert path=\"/src/-nav.html\" --></h1>'' else ''<p>hi</p>''))
          [File ''-nav.html'', File ''_layout.html'', File ''index.html''] ?cfg empty_registry"
  have wf: "wf_registry empty_registry" by (simp add: wf_registry_def empty_registry_def)
  have r: "results ?out = [\<lparr> res_path = ''/src/index.html'', res_name = ''index.html'',
                           res_content = ''<h1><p>hi</p></h1>'' \<rparr>]" by code_simp
  have w: "written ?out = [(''/dist/index.html'', ''<h1><p>hi</p></h1>'')]" by code_simp
  have i: "map fst (insertFiles (registry_after ?out)) = [''/src/-nav.html'']" by code_simp
  have l: "map fst (wrapFiles (registry_after ?out)) = [''/src/_layout.html'']" by code_simp
  from processDirectory_pages_only [OF wf, of "\<lambda>e. None" "\<lambda>j. []"
        "\<lambda>p. Some (if p = ''/src/index.html''
                       then ''<h1><!--#insert path=\"/src/-nav.html\" --></h1>'' else ''<p>hi</p>'')"
        "[File ''-nav.html'', File ''_layout.html'', File ''index.html'']" ?cfg]
  have a: "list_all (\<lambda>r. list_ex (\<lambda>f. res_path r = path f \<and> res_name r = name f
                                      \<and> categorize (name f) = Page)
                        (pageFiles (registry_after ?out))) (results ?out)"
    and b: "list_all (\<lambda>g. path g \<notin> res_path ` set (results ?out))
            (map snd (insertFiles (registry_after ?out)) @ map snd (wrapFiles (registry_after ?out)))"
    unfolding list_all_iff list_ex_iff by (blast, simp)
  from wf r w i l a b show ?thesis unfolding Let_def by blast
qed

section \<open>Data lookup\<close>

lemma descend_present: "descend v segs = None \<longleftrightarrow> \<not> present v segs"
proof (induction segs arbitrary: v)
  case Nil
  then show ?case by simp
next
  case (Cons seg segs)
  show ?case
  proof (cases v)
    case (JObj kvs)
    with Cons show ?thesis by (simp split: option.splits)
  next
    case (JArr xs)
    with Cons show ?thesis by auto
  qed simp_all
qed

text \<open>
  C7. For a path that is absent from the data tree (a segment names no key, or an index is
  out of range), \<open>resolve\<close> returns the default it is given, and the empty text when it is
  given none. \<open>resolve\<close> has no error result: a missing path is never an error.
\<close>

theorem resolve_absent_path:
  assumes "\<not> present T (split_str ''.'' P)"
  shows "resolve T P (Some D) = D \<and> resolve T P None = JStr []"
proof -
  from assms have "descend T (split_str ''.'' P) = None" by (simp add: descend_present)
  then show ?thesis by (simp add: resolve_def)
qed

theorem resolve_absent_path_witness:
  "\<not> present (JObj [(''site'', JObj [(''title'', JStr ''My Website'')]), (''nav'', JArr [JStr ''Home''])])
        (split_str ''.'' ''nav.3.title'')
   \<and> resolve (JObj [(''site'', JObj [(''title'', JStr ''My Website'')]), (''nav'', JArr [JStr ''Home''])])
        ''nav.3.title'' (Some (JStr ''none'')) = JStr ''none''
   \<and> resolve (JObj [(''site'', JObj [(''title'', JStr ''My Website'')]), (''nav'', JArr [JStr ''Home''])])
        ''nav.3.title'' None = JStr []"
proof -
  have h: "\<not> present (JObj [(''site'', JObj [(''title'', JStr ''My Website'')]), (''nav'', JArr [JStr ''Home''])])
        (split_str ''.'' ''nav.3.title'')" by code_simp
  from resolve_absent_path [OF h] h show ?thesis by blast
qed

lemma resolve_present_example:
  "resolve (JObj [(''site'', JObj [(''title'', JStr ''My Website'')]), (''nav'', JArr [JStr ''Home''])])
        ''nav.0'' (Some (JStr ''none'')) = JStr ''Home''"
  by code_simp

section \<open>Documents without directives\<close>

lemma find_sub_split: "find_sub pat s = Some (a, b) \<Longrightarrow> s = a @ pat @ b"
proof (induction s arbitrary: a)
  case Nil
  then show ?case by (simp split: if_splits)
next
  case (Cons c cs)
  show ?case
  proof (cases "prefix pat (c # cs)")
    case True
    with Cons.prems have "a = []" "b = drop (length pat) (c # cs)" by simp_all
    with True show ?thesis by (auto simp: prefix_def)
  next
    case False
    with Cons.prems obtain a' where "find_sub pat cs = Some (a', b)" "a = c # a'"
      by (auto split: option.splits)
    with Cons.IH show ?thesis by simp
  qed
qed

lemma render_lit: "concat (map render_piece (lit s)) = s"
  by (simp add: lit_def)

lemma render_classify: "render_piece (classify os inner) = ''<!--#'' @ inner @ ''-->''"
  by (simp add: classify_def Let_def split: option.splits)

lemma render_scan: "render (scan os s) = s"
proof (induction os s rule: scan.induct)
  case (1 os s)
  show ?case
  proof (cases "find_sub ''<!--#'' s")
    case None
    then show ?thesis by (subst scan.simps) (simp add: render_def render_lit)
  next
    case (Some pr)
    obtain pre r where pr: "pr = (pre, r)" by (cases pr)
    show ?thesis
    proof (cases "find_sub ''-->'' r")
      case None
      with Some pr show ?thesis by (subst scan.simps) (simp add: render_def render_lit)
    next
      case inner: (Some ip)
      obtain inner post where ip: "ip = (inner, post)" by (cases ip)
      from Some pr have s: "s = pre @ ''<!--#'' @ r" by (auto dest: find_sub_split)
      from inner ip have r: "r = inner @ ''-->'' @ post" by (auto dest: find_sub_split)
      from "1.IH" [OF Some pr [symmetric] inner ip [symmetric]]
      have ih: "render (scan os post) = post" .
      have "scan os s = lit pre @ classify os inner # scan os post"
        using Some pr inner ip by (subst scan.simps) simp
      then have "render (scan os s) = pre @ (''<!--#'' @ inner @ ''-->'') @ render (scan os post)"
        by (simp add: render_def render_lit render_classify)
      with ih s r show ?thesis by simp
    qed
  qed
qed

lemma directives_append: "directives (ps @ qs) = directives ps @ directives qs"
  by (induction ps rule: directives.induct) simp_all

lemma directives_lit: "directives (lit s) = []"
  by (simp add: lit_def)

lemma find_sub_absent:
  assumes "pat \<noteq> []" and "set pat \<inter> set r = {}"
  shows "find_sub pat r = None"
  using assms(2)
proof (induction r)
  case Nil
  with assms(1) show ?case by simp
next
  case (Cons c r)
  from assms(1) obtain x xs where pat: "pat = x # xs" by (cases pat) auto
  with Cons.prems have "x \<noteq> c" by auto
  with pat have "\<not> prefix pat (c # r)" by simp
  moreover from Cons have "find_sub pat r = None" by auto
  ultimately show ?case by simp
qed

lemma find_sub_trailing:
  assumes pat: "pat \<noteq> []" and dis: "set pat \<inter> set r = {}"
  shows "find_sub pat (t @ r) = map_option (\<lambda>(a, b). (a, b @ r)) (find_sub pat t)"
proof (induction t)
  case Nil
  from find_sub_absent [OF pat dis] pat show ?case by simp
next
  case (Cons c t)
  have eq: "prefix pat (c # t @ r) = prefix pat (c # t)"
  proof
    assume "prefix pat (c # t @ r)"
    then have "prefix pat ((c # t) @ r)" by simp
    then have "prefix pat (c # t) \<or> (\<exists>us. pat = (c # t) @ us \<and> prefix us r)"
      by (simp only: prefix_append)
    then show "prefix pat (c # t)"
    proof
      assume "\<exists>us. pat = (c # t) @ us \<and> prefix us r"
      then obtain us where u: "pat = (c # t) @ us" "prefix us r" by blast
      show ?thesis
      proof (cases us)
        case Nil
        with u show ?thesis by simp
      next
        case (Cons y ys)
        with u have "y \<in> set pat" "y \<in> set r" by (auto simp: prefix_def)
        with dis show ?thesis by blast
      qed
    qed
  next
    assume "prefix pat (c # t)"
    then have "prefix pat ((c # t) @ r)" by (rule prefix_prefix)
    then show "prefix pat (c # t @ r)" by simp
  qed
  show ?case
  proof (cases "prefix pat (c # t)")
    case True
    then have "length pat \<le> length (c # t)" by (rule prefix_length_le)
    then have "drop (length pat) (c # t @ r) = drop (length pat) (c # t) @ r"
      using drop_append [of "length pat" "c # t" r] by simp
    with True eq show ?thesis by simp
  next
    case False
    with eq Cons show ?thesis by (simp split: option.splits)
  qed
qed

lemma find_sub_leading:
  assumes "\<forall>c\<in>set l. is_space c"
  shows "find_sub ''<!--#'' (l @ t) = map_option (\<lambda>(a, b). (l @ a, b)) (find_sub ''<!--#'' t)"
  using assms
proof (induction l)
  case Nil
  then show ?case by (simp add: option.map_ident split_def)
next
  case (Cons c l)
  then have "is_space c" by simp
  then have "c \<noteq> CHR ''<''" by (auto simp: is_space_def)
  with Cons show ?case by (simp split: option.splits)
qed

lemma directives_scan_leading:
  assumes l: "\<forall>c\<in>set l. is_space c"
  shows "directives (scan os (l @ t)) = directives (scan os t)"
proof (cases "find_sub ''<!--#'' t")
  case None
  with find_sub_leading [OF l, of t] have "find_sub ''<!--#'' (l @ t) = None" by simp
  with None show ?thesis
    by (subst scan.simps, subst (2) scan.simps) (simp add: directives_lit)
next
  case (Some pr)
  obtain pre r where pr: "pr = (pre, r)" by (cases pr)
  with Some find_sub_leading [OF l, of t]
  have f: "find_sub ''<!--#'' (l @ t) = Some (l @ pre, r)" by simp
  show ?thesis
  proof (cases "find_sub ''-->'' r")
    case None
    with f Some pr show ?thesis
      by (subst scan.simps, subst (2) scan.simps) (simp add: directives_lit)
  next
    case inner: (Some ip)
    obtain inner post where ip: "ip = (inner, post)" by (cases ip)
    with f Some pr inner show ?thesis
      by (subst scan.simps, subst (2) scan.simps) (simp add: directives_lit directives_append)
  qed
qed

lemma space_disjoint:
  assumes "\<forall>c\<in>set r. is_space c"
  shows "set ''<!--#'' \<inter> set r = {}" and "set ''-->'' \<inter> set r = {}"
proof -
  have "\<not> is_space CHR ''<''" "\<not> is_space CHR ''!''" "\<not> is_space CHR ''-''"
    "\<not> is_space CHR ''#''" "\<not> is_space CHR ''>''"
    by (simp_all add: is_space_def)
  with assms show "set ''<!--#'' \<inter> set r = {}" and "set ''-->'' \<inter> set r = {}"
    by auto
qed

lemma directives_scan_trailing:
  assumes r: "\<forall>c\<in>set r. is_space c"
  shows "directives (scan os (t @ r)) = directives (scan os t)"
proof (induction os t rule: scan.induct)
  case (1 os s)
  have o: "find_sub ''<!--#'' (s @ r) = map_option (\<lambda>(a, b). (a, b @ r)) (find_sub ''<!--#'' s)"
    by (rule find_sub_trailing [OF _ space_disjoint(1) [OF r]]) simp
  have c: "find_sub ''-->'' (u @ r) = map_option (\<lambda>(a, b). (a, b @ r)) (find_sub ''-->'' u)" for u
    by (rule find_sub_trailing [OF _ space_disjoint(2) [OF r]]) simp
  show ?case
  proof (cases "find_sub ''<!--#'' s")
    case None
    with o show ?thesis
      by (subst scan.simps, subst (2) scan.simps) (simp add: directives_lit)
  next
    case (Some pr)
    obtain pre rest where pr: "pr = (pre, rest)" by (cases pr)
    with Some o have f: "find_sub ''<!--#'' (s @ r) = Some (pre, rest @ r)" by simp
    show ?thesis
    proof (cases "find_sub ''-->'' rest")
      case None
      with c [of rest] have "find_sub ''-->'' (rest @ r) = None" by simp
      with f Some pr None show ?thesis
        by (subst scan.simps, subst (2) scan.simps) (simp add: directives_lit)
    next
      case inner: (Some ip)
      obtain inner post where ip: "ip = (inner, post)" by (cases ip)
      with inner c [of rest] have g: "find_sub ''-->'' (rest @ r) = Some (inner, post @ r)" by simp
      from "1.IH" [OF Some pr [symmetric] inner ip [symmetric]]
      have ih: "directives (scan os (post @ r)) = directives (scan os post)" .
      have a: "scan os (s @ r) = lit pre @ classify os inner # scan os (post @ r)"
        using f g by (subst scan.simps) simp
      have b: "scan os s = lit pre @ classify os inner # scan os post"
        using Some pr inner ip by (subst scan.simps) simp
      show ?thesis unfolding a b directives_append using ih
        by (cases "classify os inner") simp_all
    qed
  qed
qed

lemma trim_decompose:
  "\<exists>l r. s = l @ trim s @ r \<and> (\<forall>c\<in>set l. is_space c) \<and> (\<forall>c\<in>set r. is_space c)"
proof -
  define u where "u = dropWhile is_space s"
  define l where "l = takeWhile is_space s"
  define r where "r = rev (takeWhile is_space (rev u))"
  have s: "s = l @ u" by (simp add: l_def u_def)
  have "trim s @ r = rev (dropWhile is_space (rev u)) @ rev (takeWhile is_space (rev u))"
    by (simp only: trim_def r_def u_def)
  also have "\<dots> = rev (takeWhile is_space (rev u) @ dropWhile is_space (rev u))"
    by (simp only: rev_append)
  also have "\<dots> = rev (rev u)" by (simp only: takeWhile_dropWhile_id)
  finally have u: "u = trim s @ r" by simp
  have "\<forall>c\<in>set l. is_space c" by (auto simp: l_def dest: set_takeWhileD)
  moreover have "\<forall>c\<in>set r. is_space c" by (auto simp: r_def dest: set_takeWhileD)
  ultimately show ?thesis using s u by blast
qed

lemma directives_scan_trim: "directives (scan os (trim s)) = directives (scan os s)"
proof -
  from trim_decompose [of s] obtain l r where
    s: "s = l @ trim s @ r" and l: "\<forall>c\<in>set l. is_space c" and r: "\<forall>c\<in>set r. is_space c"
    by blast
  have "directives (scan os s) = directives (scan os (l @ trim s @ r))" using s by simp
  also have "\<dots> = directives (scan os (trim s @ r))" by (rule directives_scan_leading [OF l])
  also have "\<dots> = directives (scan os (trim s))" by (rule directives_scan_trailing [OF r])
  finally show ?thesis by simp
qed

lemma processFile_stable:
  assumes "directives (scan (opts E) (content f)) = []"
  shows "map_option (\<lambda>r. content (out r)) (processFile E f T) = Some (content f)"
proof -
  have "engine E T (Resolve (path f) (scan (opts E) (content f)) 0)
      = Some (scan (opts E) (content f), [], 0)"
    using assms by (subst engine.simps) simp
  then show ?thesis by (simp add: processFile_def finish_def render_scan)
qed

text \<open>
  C1, as amended. For every input text in which the scanner finds no directive, and for
  any options, registry and base path, \<open>processContent\<close> returns the input text with its
  leading and trailing white space removed, and otherwise unchanged.
\<close>

theorem processContent_without_directives:
  assumes "directives (scan os raw) = []"
  shows "processContent ev sf reg basePath os raw = Some (trim raw)"
proof -
  let ?f = "createFileObject (path_join basePath ''virtual-file.html'') raw"
  let ?E = "engine_env os reg ev sf"
  have c: "content ?f = trim raw" by (simp add: createFileObject_def)
  have o: "opts ?E = os" by (simp add: engine_env_def)
  have "directives (scan (opts ?E) (content ?f)) = []"
    unfolding c o using assms by (simp add: directives_scan_trim)
  from processFile_stable [OF this, of "json_or_empty (jsonInput os)"] c
  show ?thesis by (simp add: processContent_def)
qed

theorem processContent_without_directives_witness:
  "directives (scan \<lparr> jsonInput = None, insertPattern = None, filePathAttribute = ''path'',
                      jsonPathAttribute = ''jsonPath'', limitIterations = None \<rparr>
        ''  <p>Hello</p> <!-- note -->  '') = []
   \<and> processContent (\<lambda>e. None) (\<lambda>j. []) empty_registry ''/site''
        \<lparr> jsonInput = None, insertPattern = None, filePathAttribute = ''path'',
          jsonPathAttribute = ''jsonPath'', limitIterations = None \<rparr>
        ''  <p>Hello</p> <!-- note -->  ''
       = Some ''<p>Hello</p> <!-- note -->''"
proof -
  have h: "directives (scan \<lparr> jsonInput = None, insertPattern = None, filePathAttribute = ''path'',
                      jsonPathAttribute = ''jsonPath'', limitIterations = None \<rparr>
        ''  <p>Hello</p> <!-- note -->  '') = []" by code_simp
  have t: "trim ''  <p>Hello</p> <!-- note -->  '' = ''<p>Hello</p> <!-- note -->''"
    by (simp add: trim_def is_space_def)
  from processContent_without_directives [OF h, of "\<lambda>e. None" "\<lambda>j. []" empty_registry "''/site''"] h t
  show ?thesis by simp
qed

text \<open>
  C1 as stated fails on a text that starts or ends with white space:
  \<open>createFileObject\<close> trims the content before the engine sees it.
\<close>

theorem processContent_unchanged_counterexample:
  "directives (scan \<lparr> jsonInput = None, insertPattern = None, filePathAttribute = ''path'',
                      jsonPathAttribute = ''jsonPath'', limitIterations = None \<rparr>
        ''  <p>Hello</p>  '') = []
   \<and> processContent (\<lambda>e. None) (\<lambda>j. []) empty_registry ''/site''
        \<lparr> jsonInput = None, insertPattern = None, filePathAttribute = ''path'',
          jsonPathAttribute = ''jsonPath'', limitIterations = None \<rparr>
        ''  <p>Hello</p>  ''
       = Some ''<p>Hello</p>''
   \<and> ''<p>Hello</p>'' \<noteq> ''  <p>Hello</p>  ''"
  by code_simp

section \<open>Cyclic inserts and the iteration cap\<close>

lemma engine_Resolve:
  "engine E T (Resolve host ps k) =
     (if directives ps = [] \<or> capped (opts E) k then Some (ps, [], k)
      else Option.bind (engine E T (Pass host 0 None ps (Suc k)))
             (\<lambda>(qs, c1, k1).
                Option.bind (engine E T (Resolve host qs k1))
                  (\<lambda>(rs, c2, k2). Some (rs, c1 @ c2, k2))))"
  by (subst engine.simps) simp

lemma engine_Pass_Nil: "engine E T (Pass host depth cur [] k) = Some (leftover cur, [], k)"
  by (subst engine.simps) simp

lemma engine_Pass_Emit:
  "dispatch E T host depth cur p rest = Emit pre c1 depth' cur' \<Longrightarrow>
   engine E T (Pass host depth cur (p # rest) k) =
     Option.bind (engine E T (Pass host depth' cur' rest k))
       (\<lambda>(qs, c2, k2). Some (pre @ qs, c1 @ c2, k2))"
  by (subst engine.simps) simp

lemma engine_Pass_Fetch:
  "dispatch E T host depth cur p rest = Fetch q text \<Longrightarrow>
   engine E T (Pass host depth cur (p # rest) k) =
     Option.bind (engine E T (Resolve q (scan (opts E) text) k))
       (\<lambda>(fs, c1, k1).
          Option.bind (engine E T (Pass host depth None rest k1))
            (\<lambda>(qs, c2, k2). Some (fs @ qs, c1 @ c2, k2)))"
  by (subst engine.simps) simp

lemma engine_returns:
  assumes cap: "limitIterations (opts E) = Some N"
  shows "passes_made t \<le> N \<Longrightarrow>
     \<exists>qs c k'. engine E T t = Some (qs, c, k') \<and> passes_made t \<le> k' \<and> k' \<le> N"
proof -
  have "wf (inv_image (less_than <*lex*> less_than) (\<lambda>t. (N - passes_made t, rank t)))"
    by (intro wf_inv_image wf_lex_prod wf_less_than)
  then show "passes_made t \<le> N \<Longrightarrow>
     \<exists>qs c k'. engine E T t = Some (qs, c, k') \<and> passes_made t \<le> k' \<and> k' \<le> N"
  proof (induct t rule: wf_induct_rule)
  case (less t)
  note IH = less.hyps
  show ?case
  proof (cases t)
    case (Resolve host ps k)
    with less.prems have k: "k \<le> N" by simp
    show ?thesis
    proof (cases "directives ps = [] \<or> capped (opts E) k")
      case True
      with k show ?thesis by (simp add: Resolve engine_Resolve)
    next
      case False
      with cap have lt: "k < N" by (simp add: capped_def)
      have "\<exists>qs c k'. engine E T (Pass host 0 None ps (Suc k)) = Some (qs, c, k')
              \<and> passes_made (Pass host 0 None ps (Suc k)) \<le> k' \<and> k' \<le> N"
        using lt by (intro IH) (simp_all add: Resolve)
      then obtain qs c1 k1 where p: "engine E T (Pass host 0 None ps (Suc k)) = Some (qs, c1, k1)"
        and k1: "Suc k \<le> k1" "k1 \<le> N" by auto
      have "\<exists>rs c k'. engine E T (Resolve host qs k1) = Some (rs, c, k')
              \<and> passes_made (Resolve host qs k1) \<le> k' \<and> k' \<le> N"
        using k1 by (intro IH) (simp_all add: Resolve)
      then obtain rs c2 k2 where r: "engine E T (Resolve host qs k1) = Some (rs, c2, k2)"
        and k2: "k1 \<le> k2" "k2 \<le> N" by auto
      from False p r have "engine E T t = Some (rs, c1 @ c2, k2)"
        by (simp add: Resolve engine_Resolve)
      with k1 k2 show ?thesis by (simp add: Resolve)
    qed
  next
    case (Pass host depth cur ps k)
    with less.prems have k: "k \<le> N" by simp
    show ?thesis
    proof (cases ps)
      case Nil
      with k show ?thesis by (simp add: Pass engine_Pass_Nil)
    next
      case (Cons p rest)
      show ?thesis
      proof (cases "dispatch E T host depth cur p rest")
        case (Emit pre c1 depth' cur')
        have "\<exists>qs c k'. engine E T (Pass host depth' cur' rest k) = Some (qs, c, k')
              \<and> passes_made (Pass host depth' cur' rest k) \<le> k' \<and> k' \<le> N"
          using k by (intro IH) (simp_all add: Pass Cons)
        then obtain qs c2 k2 where
          r: "engine E T (Pass host depth' cur' rest k) = Some (qs, c2, k2)"
          and k2: "k \<le> k2" "k2 \<le> N" by auto
        from r have "engine E T t = Some (pre @ qs, c1 @ c2, k2)"
          by (simp add: Pass Cons engine_Pass_Emit [OF Emit])
        with k2 show ?thesis by (simp add: Pass)
      next
        case (Fetch q raw)
        have "\<exists>fs c k'. engine E T (Resolve q (scan (opts E) raw) k) = Some (fs, c, k')
              \<and> passes_made (Resolve q (scan (opts E) raw) k) \<le> k' \<and> k' \<le> N"
          using k by (intro IH) (simp_all add: Pass Cons)
        then obtain fs c1 k1 where
          f: "engine E T (Resolve q (scan (opts E) raw) k) = Some (fs, c1, k1)"
          and k1: "k \<le> k1" "k1 \<le> N" by auto
        have "\<exists>qs c k'. engine E T (Pass host depth None rest k1) = Some (qs, c, k')
              \<and> passes_made (Pass host depth None rest k1) \<le> k' \<and> k' \<le> N"
          using k1 by (intro IH) (auto simp: Pass Cons)
        then obtain qs c2 k2 where
          r: "engine E T (Pass host depth None rest k1) = Some (qs, c2, k2)"
          and k2: "k1 \<le> k2" "k2 \<le> N" by auto
        from f r have "engine E T t = Some (fs @ qs, c1 @ c2, k2)"
          by (simp add: Pass Cons engine_Pass_Fetch [OF Fetch])
        with k1 k2 show ?thesis by (simp add: Pass)
      qed
    qed
  qed
  qed
qed






text \<open>
  With a cap, every resolution returns, and after no more passes than the cap allows.
\<close>

lemma processFile_returns:
  assumes "limitIterations (opts E) = Some N"
  shows "\<exists>r. processFile E f T = Some r \<and> engine_passes r \<le> N"
proof -
  from engine_returns [OF assms, of "Resolve (path f) (scan (opts E) (content f)) 0" T]
  obtain qs c k where "engine E T (Resolve (path f) (scan (opts E) (content f)) 0) = Some (qs, c, k)"
    and "k \<le> N" by auto
  then show ?thesis by (simp add: processFile_def finish_def)
qed



text \<open>
  The engine on the spec's examples: a two-level insert is resolved in exactly two passes;
  the resolution of \<open>A\<close> itself, in the cycle above, stops at the cap as well; and without
  a pass to make (limit \<open>0\<close>) the text comes back as it is.
\<close>

lemma two_level_insert_example:
  "map_option (\<lambda>r. (final r, engine_passes r, conditions r, content (out r)))
     (processFile
        \<lparr> opts = \<lparr> jsonInput = None, insertPattern = None, filePathAttribute = ''path'',
                   jsonPathAttribute = ''jsonPath'', limitIterations = None \<rparr>,
          fragment = map_of [(''/src/-b.html'', ''B<!--#insert path=\"-c.html\" -->''),
                             (''/src/-c.html'', ''C'')],
          layout = (\<lambda>p. None), evaluate = (\<lambda>e. None), stringify = (\<lambda>j. []) \<rparr>
        (createFileObject ''/src/a.html'' ''<p><!--#insert path=\"-b.html\" --></p>'')
        (JObj []))
     = Some (Stable, 2, [], ''<p>BC</p>'')"
  by code_simp

lemma cycle_of_fragment_example:
  "map_option (\<lambda>r. (final r, engine_passes r, conditions r, content (out r)))
     (processFile
        \<lparr> opts = \<lparr> jsonInput = None, insertPattern = None, filePathAttribute = ''path'',
                   jsonPathAttribute = ''jsonPath'', limitIterations = Some 3 \<rparr>,
          fragment = map_of [(''/src/-a.html'', ''A<!--#insert path=\"-b.html\" -->''),
                             (''/src/-b.html'', ''B<!--#insert path=\"-a.html\" -->'')],
          layout = (\<lambda>p. None), evaluate = (\<lambda>e. None), stringify = (\<lambda>j. []) \<rparr>
        (createFileObject ''/src/-a.html'' ''A<!--#insert path=\"-b.html\" -->'')
        (JObj []))
     = Some (IterationExceeded, 3, [UnresolvedDirective],
             ''ABAB<!--#insert path=\"-a.html\" -->'')"
  by code_simp

lemma cycle_without_pass_example:
  "map_option (\<lambda>r. (final r, engine_passes r, conditions r, content (out r)))
     (processFile
        \<lparr> opts = \<lparr> jsonInput = None, insertPattern = None, filePathAttribute = ''path'',
                   jsonPathAttribute = ''jsonPath'', limitIterations = Some 0 \<rparr>,
          fragment = map_of [(''/src/-a.html'', ''A<!--#insert path=\"-b.html\" -->''),
                             (''/src/-b.html'', ''B<!--#insert path=\"-a.html\" -->'')],
          layout = (\<lambda>p. None), evaluate = (\<lambda>e. None), stringify = (\<lambda>j. []) \<rparr>
        (createFileObject ''/src/index.html'' ''<p><!--#insert path=\"-a.html\" --></p>'')
        (JObj []))
     = Some (IterationExceeded, 0, [UnresolvedDirective],
             ''<p><!--#insert path=\"-a.html\" --></p>'')"
  by code_simp

end
